theory Spec2Isabelle
  imports Main "HOL-Library.Word" "HOL-Library.Signed_Division" "HOL-Library.Multiset"
begin

unbundle bit_operations_syntax

section \<open>Smart farming controller (ESP32, four zones): data model\<close>

text \<open>
  The sketch \<^verbatim>\<open>Smart_Farming_V1.ino\<close> is embedded function by function. Unsigned
  machine integers are words of their width, so that \<^verbatim>\<open>now - lastSampleMs\<close> wraps as
  it does on the board. The signed \<^verbatim>\<open>int\<close> and \<^verbatim>\<open>long\<close> of the ESP32 are both
  32 bits wide; they are stored as \<open>32 word\<close> and read with \<open>sint\<close>.
\<close>

type_synonym u8 = "8 word"
type_synonym u16 = "16 word"
type_synonym u32 = "32 word"
type_synonym c_int = "32 word"

datatype level = LOW | HIGH

text \<open>
  \<^verbatim>\<open>struct ZoneState\<close>, with one more field: \<open>relayPin\<close> is the level last written to
  \<^verbatim>\<open>RELAY_PINS[i]\<close> by \<^verbatim>\<open>digitalWrite\<close>, so that what the actuator is told is part
  of the state.
\<close>

record ZoneState =
  watering :: bool
  lastSampleMs :: u32
  wateringStartMs :: u32
  lastWateringEndMs :: u32
  faultMinCount :: u16
  faultMaxCount :: u16
  sensorFault :: bool
  lastMoistPercent :: u8
  lastAdc :: u16
  relayPin :: level

text \<open>
  The \<^verbatim>\<open>USER CONFIG\<close> block, as a record so that every result below holds for
  any setting of it; \<open>default_config\<close> is the setting of the sketch. The per-zone
  arrays are lists indexed by the zone number. \<open>DRY_ADC\<close> and \<open>WET_ADC\<close> are the only
  entries the program writes (the \<^verbatim>\<open>CAL\<close> command); they live in the system state
  below.
\<close>

definition ZONES :: nat where
  "ZONES = 4"

record Config =
  RELAY_ACTIVE_LOW :: bool
  ON_THRESHOLD :: "u8 list"
  OFF_THRESHOLD :: "u8 list"
  MIN_ON_TIME_MS :: u32
  MAX_ON_TIME_MS :: u32
  COOLDOWN_MS :: u32
  SAMPLE_INTERVAL_MS :: u16
  MEDIAN_SAMPLES :: u8
  FAULT_COUNT_LIMIT :: u16
  ADC_NEAR_MIN :: u16
  ADC_NEAR_MAX :: u16
  USE_TIME_WINDOW :: bool
  ALLOWED_START_HOUR_1 :: u8
  ALLOWED_END_HOUR_1 :: u8
  ALLOWED_START_HOUR_2 :: u8
  ALLOWED_END_HOUR_2 :: u8

definition default_config :: Config where
  "default_config = \<lparr>
     RELAY_ACTIVE_LOW = True,
     ON_THRESHOLD = [35, 35, 35, 35],
     OFF_THRESHOLD = [45, 45, 45, 45],
     MIN_ON_TIME_MS = 10000,
     MAX_ON_TIME_MS = 30000,
     COOLDOWN_MS = 120000,
     SAMPLE_INTERVAL_MS = 1000,
     MEDIAN_SAMPLES = 9,
     FAULT_COUNT_LIMIT = 30,
     ADC_NEAR_MIN = 20,
     ADC_NEAR_MAX = 4090,
     USE_TIME_WINDOW = False,
     ALLOWED_START_HOUR_1 = 5,
     ALLOWED_END_HOUR_1 = 9,
     ALLOWED_START_HOUR_2 = 17,
     ALLOWED_END_HOUR_2 = 21 \<rparr>"

record System =
  zone :: "ZoneState list"
  DRY_ADC :: "c_int list"
  WET_ADC :: "c_int list"

text \<open>The member initialisers of \<^verbatim>\<open>struct ZoneState\<close>; the pin is not driven yet.\<close>

definition zone0 :: ZoneState where
  "zone0 = \<lparr> watering = False, lastSampleMs = 0, wateringStartMs = 0,
     lastWateringEndMs = 0, faultMinCount = 0, faultMaxCount = 0, sensorFault = False,
     lastMoistPercent = 0, lastAdc = 0, relayPin = LOW \<rparr>"

definition boot :: System where
  "boot = \<lparr> zone = [zone0, zone0, zone0, zone0],
     DRY_ADC = [3200, 3200, 3200, 3200],
     WET_ADC = [1400, 1400, 1400, 1400] \<rparr>"

section \<open>Utilities\<close>

subsection \<open>setRelay\<close>

text \<open>
  \<^verbatim>\<open>setRelay(i, on)\<close> on the zone it indexes; \<open>ms\<close> is what \<^verbatim>\<open>millis()\<close> returns
  inside the call.
\<close>

definition setRelay :: "Config \<Rightarrow> u32 \<Rightarrow> bool \<Rightarrow> ZoneState \<Rightarrow> ZoneState" where
  "setRelay cfg ms on z =
     (let z1 = (if RELAY_ACTIVE_LOW cfg
                then z\<lparr>relayPin := (if on then LOW else HIGH)\<rparr>
                else z\<lparr>relayPin := (if on then HIGH else LOW)\<rparr>);
          z2 = z1\<lparr>watering := on\<rparr>
      in if on then z2\<lparr>wateringStartMs := ms\<rparr> else z2\<lparr>lastWateringEndMs := ms\<rparr>)"

text \<open>The level that switches the actuator of a zone off.\<close>

definition relay_off_level :: "Config \<Rightarrow> level" where
  "relay_off_level cfg = (if RELAY_ACTIVE_LOW cfg then HIGH else LOW)"

subsection \<open>sortArray\<close>

text \<open>
  The two nested \<^verbatim>\<open>for\<close> statements of \<^verbatim>\<open>sortArray(arr, n)\<close>. The counters are
  \<^verbatim>\<open>uint8_t\<close> and \<open>n \<le> 255\<close>, so neither wraps before the loop test fails and
  \<open>nat\<close> counters run the same.
\<close>

function sortArray_inner :: "u16 list \<Rightarrow> nat \<Rightarrow> nat \<Rightarrow> nat \<Rightarrow> u16 list" where
  "sortArray_inner arr n i j =
     (if j < n
      then sortArray_inner
             (if arr ! j < arr ! i then arr[i := arr ! j, j := arr ! i] else arr) n i (j + 1)
      else arr)"
  by pat_completeness auto
termination
  by (relation "measure (\<lambda>(arr, n, i, j). n - j)") auto

declare sortArray_inner.simps [simp del]

function sortArray_outer :: "u16 list \<Rightarrow> nat \<Rightarrow> nat \<Rightarrow> u16 list" where
  "sortArray_outer arr n i =
     (if i < n then sortArray_outer (sortArray_inner arr n i (i + 1)) n (i + 1) else arr)"
  by pat_completeness auto
termination
  by (relation "measure (\<lambda>(arr, n, i). n - i)") auto

declare sortArray_outer.simps [simp del]

definition sortArray :: "u16 list \<Rightarrow> nat \<Rightarrow> u16 list" where
  "sortArray arr n = sortArray_outer arr n 0"

subsection \<open>readMedianAdc\<close>

text \<open>The three adjustments of \<^verbatim>\<open>samples\<close>, on the \<^verbatim>\<open>uint8_t\<close> it is.\<close>

definition sample_count :: "u8 \<Rightarrow> u8" where
  "sample_count samples =
     (let s1 = (if samples < 3 then 3 else samples);
          s2 = (if s1 mod 2 = 0 then s1 + 1 else s1)
      in if s2 > 15 then 15 else s2)"

text \<open>
  \<open>analogRead k\<close> is the value the \<open>k\<close>-th call of \<^verbatim>\<open>analogRead(pin)\<close> returns in this
  invocation. \<open>vals\<close> holds the part of \<^verbatim>\<open>vals[15]\<close> that the loop fills.
\<close>

definition readings :: "(nat \<Rightarrow> u16) \<Rightarrow> u8 \<Rightarrow> u16 list" where
  "readings analogRead samples = map analogRead [0 ..< unat (sample_count samples)]"

definition readMedianAdc :: "(nat \<Rightarrow> u16) \<Rightarrow> u8 \<Rightarrow> u16" where
  "readMedianAdc analogRead samples =
     (let n = unat (sample_count samples);
          vals = map analogRead [0 ..< n]
      in sortArray vals n ! (n div 2))"

subsection \<open>adcToPercent\<close>

text \<open>
  A \<^verbatim>\<open>long\<close> is 32 bits on the ESP32. \<open>to_long\<close> is the value a \<^verbatim>\<open>long\<close> holds after
  an operation whose exact result is \<open>k\<close>: the two's complement wrap-around of the
  processor. C's \<^verbatim>\<open>/\<close> truncates towards zero, which is \<open>sdiv\<close> on \<open>int\<close>.
\<close>

definition to_long :: "int \<Rightarrow> int" where
  "to_long k = signed_take_bit 31 k"

text \<open>
  \<^verbatim>\<open>map\<close> is not part of the sketch: it is the function of the Arduino core for the
  ESP32 (\<^verbatim>\<open>WMath.cpp\<close>), the formula of the Arduino reference with a guard for an
  empty input range:
  \<^verbatim>\<open>
  long map(long x, long in_min, long in_max, long out_min, long out_max) {
    const long run = in_max - in_min;
    if (run == 0) { return -1; }
    const long rise = out_max - out_min;
    const long delta = x - in_min;
    return (delta * rise) / run + out_min;
  }
  \<close>
\<close>

definition arduino_map :: "int \<Rightarrow> int \<Rightarrow> int \<Rightarrow> int \<Rightarrow> int \<Rightarrow> int" where
  "arduino_map x in_min in_max out_min out_max =
     (let run = to_long (in_max - in_min)
      in if run = 0 then - 1
         else let rise = to_long (out_max - out_min);
                  delta = to_long (x - in_min)
              in to_long (to_long (to_long (delta * rise) sdiv run) + out_min))"

definition adcToPercent :: "u16 \<Rightarrow> c_int \<Rightarrow> c_int \<Rightarrow> u8" where
  "adcToPercent adc dry wet =
     (if dry = wet then 0
      else let pct = arduino_map (uint adc) (sint dry) (sint wet) 0 100;
               pct1 = (if pct < 0 then 0 else pct);
               pct2 = (if pct1 > 100 then 100 else pct1)
           in word_of_int pct2)"

subsection \<open>cooldownPassed, wateringAllowedNow, updateFault\<close>

text \<open>\<open>ms\<close> is what \<^verbatim>\<open>millis()\<close> returns inside the call.\<close>

definition cooldownPassed :: "Config \<Rightarrow> u32 \<Rightarrow> ZoneState \<Rightarrow> bool" where
  "cooldownPassed cfg ms z =
     (if lastWateringEndMs z = 0 then True
      else ms - lastWateringEndMs z \<ge> COOLDOWN_MS cfg)"

definition wateringAllowedNow :: "Config \<Rightarrow> u32 \<Rightarrow> bool" where
  "wateringAllowedNow cfg ms =
     (if \<not> USE_TIME_WINDOW cfg then True
      else let mins = (ms div 60000) mod 24;
               hour = (ucast mins :: u8);
               in1 = (hour \<ge> ALLOWED_START_HOUR_1 cfg \<and> hour \<le> ALLOWED_END_HOUR_1 cfg);
               in2 = (hour \<ge> ALLOWED_START_HOUR_2 cfg \<and> hour \<le> ALLOWED_END_HOUR_2 cfg)
           in in1 \<or> in2)"

definition updateFault :: "Config \<Rightarrow> u16 \<Rightarrow> ZoneState \<Rightarrow> ZoneState" where
  "updateFault cfg adc z =
     (let z1 = (if adc \<le> ADC_NEAR_MIN cfg then z\<lparr>faultMinCount := faultMinCount z + 1\<rparr>
                else z\<lparr>faultMinCount := 0\<rparr>);
          z2 = (if adc \<ge> ADC_NEAR_MAX cfg then z1\<lparr>faultMaxCount := faultMaxCount z1 + 1\<rparr>
                else z1\<lparr>faultMaxCount := 0\<rparr>)
      in if faultMinCount z2 \<ge> FAULT_COUNT_LIMIT cfg \<or> faultMaxCount z2 \<ge> FAULT_COUNT_LIMIT cfg
         then z2\<lparr>sensorFault := True\<rparr>
         else z2)"

section \<open>Serial output\<close>

text \<open>
  What the sketch prints, one constructor for each message (a run of \<^verbatim>\<open>Serial.print\<close>
  calls closed by a \<^verbatim>\<open>println\<close>), with the values printed in it. Zone numbers are
  carried as printed, that is \<open>i + 1\<close>.
  \<^item> \<open>SensorFaultStop n\<close>: \<^verbatim>\<open>Zone n SENSOR FAULT -> STOP watering!\<close>
  \<^item> \<open>MaxOnTimeStop n\<close>: \<^verbatim>\<open>Zone n reached MAX_ON_TIME -> STOP\<close>
  \<^item> \<open>WaterOn n p\<close>: \<^verbatim>\<open>Zone n dry (p%) -> WATER ON\<close>
  \<^item> \<open>WaterOff n p\<close>: \<^verbatim>\<open>Zone n recovered (p%) -> WATER OFF\<close>
  \<^item> \<open>StatusReport\<close>: the \<^verbatim>\<open>=== STATUS ===\<close> block, a line for each zone with
    \<^verbatim>\<open>ADC\<close>, \<^verbatim>\<open>Moist%\<close>, \<^verbatim>\<open>Watering\<close>, \<^verbatim>\<open>Fault\<close>
  \<^item> \<open>ShowCal\<close>: the \<^verbatim>\<open>=== CALIBRATION ===\<close> block, a line for each zone with
    \<^verbatim>\<open>DRY_ADC\<close> and \<^verbatim>\<open>WET_ADC\<close>
  \<^item> \<open>CalFormatError\<close>: \<^verbatim>\<open>CAL format error. Example: CAL Z 1 DRY 3200\<close>
  \<^item> \<open>ZoneIndexError\<close>: \<^verbatim>\<open>Zone index must be 1-4\<close>
  \<^item> \<open>InvalidValue\<close>: \<^verbatim>\<open>Invalid value\<close>
  \<^item> \<open>SetDry n v\<close>: \<^verbatim>\<open>Set Zone n DRY_ADC=v\<close>
  \<^item> \<open>SetWet n v\<close>: \<^verbatim>\<open>Set Zone n WET_ADC=v\<close>
  \<^item> \<open>SpecifyDryOrWet\<close>: \<^verbatim>\<open>Specify DRY or WET. Example: CAL Z 2 WET 1400\<close>
  \<^item> \<open>UnknownCommand\<close>: \<^verbatim>\<open>Unknown command. Try: STATUS | SHOWCAL | ...\<close>
\<close>

datatype msg =
    SensorFaultStop nat
  | MaxOnTimeStop nat
  | WaterOn nat u8
  | WaterOff nat u8
  | StatusReport "(u16 \<times> u8 \<times> bool \<times> bool) list"
  | ShowCal "(c_int \<times> c_int) list"
  | CalFormatError
  | ZoneIndexError
  | InvalidValue
  | SetDry int int
  | SetWet int int
  | SpecifyDryOrWet
  | UnknownCommand

section \<open>The control loop\<close>

text \<open>
  What one pass over zone \<open>i\<close> reads from outside: the samples \<^verbatim>\<open>analogRead\<close> returns,
  and the value of \<^verbatim>\<open>millis()\<close> inside \<^verbatim>\<open>setRelay\<close>, \<^verbatim>\<open>cooldownPassed\<close> and
  \<^verbatim>\<open>wateringAllowedNow\<close>. They are later than \<open>now\<close>, which \<^verbatim>\<open>loop\<close> reads once
  before the zones, because sampling waits 10 ms after each read.
\<close>

record Env =
  analogRead :: "nat \<Rightarrow> u16"
  ms_relay :: u32
  ms_cooldown :: u32
  ms_window :: u32

text \<open>
  The body of the \<^verbatim>\<open>for\<close> loop of \<^verbatim>\<open>loop()\<close> for zone \<open>i\<close>, on \<open>zone[i]\<close>; \<open>dry\<close>
  and \<open>wet\<close> are \<open>DRY_ADC[i]\<close> and \<open>WET_ADC[i]\<close>. Every \<^verbatim>\<open>continue\<close> is a branch
  that returns.
\<close>

definition zone_tick ::
  "Config \<Rightarrow> u32 \<Rightarrow> Env \<Rightarrow> nat \<Rightarrow> c_int \<Rightarrow> c_int \<Rightarrow> ZoneState \<Rightarrow> ZoneState \<times> msg list" where
  "zone_tick cfg now env i dry wet z =
     (if now - lastSampleMs z < ucast (SAMPLE_INTERVAL_MS cfg) then (z, [])
      else
        let z1 = z\<lparr>lastSampleMs := now\<rparr>;
            adc = readMedianAdc (analogRead env) (MEDIAN_SAMPLES cfg);
            z2 = z1\<lparr>lastAdc := adc\<rparr>;
            z3 = updateFault cfg adc z2
        in if sensorFault z3
           then (if watering z3
                 then (setRelay cfg (ms_relay env) False z3, [SensorFaultStop (i + 1)])
                 else (z3, []))
           else
             let moistPct = adcToPercent adc dry wet;
                 z4 = z3\<lparr>lastMoistPercent := moistPct\<rparr>
             in if watering z4 \<and> now - wateringStartMs z4 \<ge> MAX_ON_TIME_MS cfg
                then (setRelay cfg (ms_relay env) False z4, [MaxOnTimeStop (i + 1)])
                else if \<not> watering z4
                then (if moistPct < ON_THRESHOLD cfg ! i
                         \<and> cooldownPassed cfg (ms_cooldown env) z4
                         \<and> wateringAllowedNow cfg (ms_window env)
                      then (setRelay cfg (ms_relay env) True z4, [WaterOn (i + 1) moistPct])
                      else (z4, []))
                else (if now - wateringStartMs z4 \<ge> MIN_ON_TIME_MS cfg
                      then (if moistPct > OFF_THRESHOLD cfg ! i
                            then (setRelay cfg (ms_relay env) False z4,
                                  [WaterOff (i + 1) moistPct])
                            else (z4, []))
                      else (z4, [])))"

text \<open>The \<^verbatim>\<open>for\<close> loop over the zones, in ascending order.\<close>

fun loop_zones ::
  "Config \<Rightarrow> u32 \<Rightarrow> (nat \<Rightarrow> Env) \<Rightarrow> nat list \<Rightarrow> System \<times> msg list \<Rightarrow> System \<times> msg list" where
  "loop_zones cfg now envs [] (s, out) = (s, out)"
| "loop_zones cfg now envs (i # is) (s, out) =
     (let (z', m) = zone_tick cfg now (envs i) i (DRY_ADC s ! i) (WET_ADC s ! i) (zone s ! i)
      in loop_zones cfg now envs is (s\<lparr>zone := (zone s)[i := z']\<rparr>, out @ m))"

section \<open>The command channel\<close>

subsection \<open>The String functions the sketch calls\<close>

text \<open>
  The methods of the Arduino \<^verbatim>\<open>String\<close> class that \<^verbatim>\<open>handleSerial\<close> uses, on a
  line without NUL bytes. An index that is not found is \<open>-1\<close>, as in the class.
\<close>

definition isspace :: "char \<Rightarrow> bool" where
  "isspace c = (let n = (of_char c :: nat) in n = 32 \<or> (9 \<le> n \<and> n \<le> 13))"

definition isdigit :: "char \<Rightarrow> bool" where
  "isdigit c = (let n = (of_char c :: nat) in 48 \<le> n \<and> n \<le> 57)"

definition toupper :: "char \<Rightarrow> char" where
  "toupper c = (let n = (of_char c :: nat) in if 97 \<le> n \<and> n \<le> 122 then char_of (n - 32) else c)"

definition trim :: "string \<Rightarrow> string" where
  "trim s = rev (dropWhile isspace (rev (dropWhile isspace s)))"

definition toUpperCase :: "string \<Rightarrow> string" where
  "toUpperCase s = map toupper s"

definition startsWith :: "string \<Rightarrow> string \<Rightarrow> bool" where
  "startsWith s p = (length p \<le> length s \<and> take (length p) s = p)"

text \<open>\<^verbatim>\<open>strstr\<close> and \<^verbatim>\<open>strchr\<close>: the offset of the first occurrence.\<close>

fun strstr :: "string \<Rightarrow> string \<Rightarrow> nat option" where
  "strstr [] p = (if p = [] then Some 0 else None)"
| "strstr (c # cs) p =
     (if take (length p) (c # cs) = p then Some 0 else map_option Suc (strstr cs p))"

fun strchr :: "string \<Rightarrow> char \<Rightarrow> nat option" where
  "strchr [] ch = None"
| "strchr (c # cs) ch = (if c = ch then Some 0 else map_option Suc (strchr cs ch))"

definition indexOf_str :: "string \<Rightarrow> string \<Rightarrow> int" where
  "indexOf_str s p =
     (if 0 \<ge> length s then - 1
      else case strstr s p of None \<Rightarrow> - 1 | Some k \<Rightarrow> int k)"

definition indexOf_chr :: "string \<Rightarrow> char \<Rightarrow> nat \<Rightarrow> int" where
  "indexOf_chr s ch fromIndex =
     (if fromIndex \<ge> length s then - 1
      else case strchr (drop fromIndex s) ch of None \<Rightarrow> - 1 | Some k \<Rightarrow> int (fromIndex + k))"

definition lastIndexOf :: "string \<Rightarrow> char \<Rightarrow> int" where
  "lastIndexOf s ch =
     (if s = [] then - 1
      else case strchr (rev s) ch of None \<Rightarrow> - 1 | Some k \<Rightarrow> int (length s - 1 - k))"

definition substring :: "string \<Rightarrow> nat \<Rightarrow> nat \<Rightarrow> string" where
  "substring s left right =
     (let l = (if left > right then right else left);
          r = (if left > right then left else right)
      in if l \<ge> length s then []
         else take ((if r > length s then length s else r) - l) (drop l s))"

text \<open>
  \<^verbatim>\<open>toInt()\<close> is \<^verbatim>\<open>atol\<close>: leading white space, an optional sign, then the digits up
  to the first other character; no digits give 0; a value out of the range of
  \<^verbatim>\<open>long\<close> gives the nearest bound.
\<close>

fun digits_val :: "int \<Rightarrow> string \<Rightarrow> int" where
  "digits_val acc [] = acc"
| "digits_val acc (c # cs) =
     (if isdigit c then digits_val (acc * 10 + (int (of_char c) - 48)) cs else acc)"

definition toInt :: "string \<Rightarrow> int" where
  "toInt s =
     (case dropWhile isspace s of
        [] \<Rightarrow> 0
      | c # cs \<Rightarrow>
          if c = CHR ''-'' then max (- (2 ^ 31)) (- digits_val 0 cs)
          else if c = CHR ''+'' then min (2 ^ 31 - 1) (digits_val 0 cs)
          else min (2 ^ 31 - 1) (digits_val 0 (c # cs)))"

subsection \<open>handleSerial\<close>

text \<open>
  \<open>input\<close> is \<open>None\<close> when \<^verbatim>\<open>Serial.available()\<close> is 0, and otherwise the line
  \<^verbatim>\<open>readStringUntil('\n')\<close> returns. Every \<^verbatim>\<open>return\<close> is a branch.
\<close>

definition handleSerial :: "string option \<Rightarrow> System \<Rightarrow> System \<times> msg list" where
  "handleSerial input s =
     (case input of
        None \<Rightarrow> (s, [])
      | Some line \<Rightarrow>
          let cmd = toUpperCase (trim line)
          in if cmd = ''STATUS''
             then (s, [StatusReport
                        (map (\<lambda>i. (lastAdc (zone s ! i), lastMoistPercent (zone s ! i),
                                    watering (zone s ! i), sensorFault (zone s ! i)))
                             [0 ..< ZONES])])
             else if cmd = ''SHOWCAL''
             then (s, [ShowCal (map (\<lambda>i. (DRY_ADC s ! i, WET_ADC s ! i)) [0 ..< ZONES])])
             else if startsWith cmd ''CAL ''
             then
               let zPos = indexOf_str cmd ''Z ''
               in if zPos < 0 then (s, [CalFormatError])
                  else
                    let afterZ = zPos + 2;
                        sp1 = indexOf_chr cmd CHR '' '' (nat afterZ)
                    in if sp1 < 0 then (s, [])
                       else
                         let zoneIndex = toInt (substring cmd (nat afterZ) (nat sp1))
                         in if zoneIndex < 1 \<or> zoneIndex > int ZONES
                            then (s, [ZoneIndexError])
                            else
                              let i = nat (zoneIndex - 1);
                                  isDry = (indexOf_str cmd '' DRY '' \<ge> 0);
                                  isWet = (indexOf_str cmd '' WET '' \<ge> 0);
                                  lastSpace = lastIndexOf cmd CHR '' ''
                              in if lastSpace < 0 then (s, [])
                                 else
                                   let val = toInt (substring cmd (nat (lastSpace + 1))
                                                      (length cmd))
                                   in if val \<le> 0 then (s, [InvalidValue])
                                      else if isDry
                                      then (s\<lparr>DRY_ADC := (DRY_ADC s)[i := word_of_int val]\<rparr>,
                                            [SetDry zoneIndex val])
                                      else if isWet
                                      then (s\<lparr>WET_ADC := (WET_ADC s)[i := word_of_int val]\<rparr>,
                                            [SetWet zoneIndex val])
                                      else (s, [SpecifyDryOrWet])
             else (s, [UnknownCommand]))"

section \<open>setup and loop\<close>

text \<open>
  \<^verbatim>\<open>setup()\<close> switches every relay off through \<^verbatim>\<open>setRelay(i, false)\<close>; \<open>ms i\<close> is what
  \<^verbatim>\<open>millis()\<close> returns in the call for zone \<open>i\<close>. The two banner lines it prints are
  left out.
\<close>

fun setup_zones :: "Config \<Rightarrow> (nat \<Rightarrow> u32) \<Rightarrow> nat list \<Rightarrow> System \<Rightarrow> System" where
  "setup_zones cfg ms [] s = s"
| "setup_zones cfg ms (i # is) s =
     setup_zones cfg ms is (s\<lparr>zone := (zone s)[i := setRelay cfg (ms i) False (zone s ! i)]\<rparr>)"

definition setup_main :: "Config \<Rightarrow> (nat \<Rightarrow> u32) \<Rightarrow> System \<Rightarrow> System" where
  "setup_main cfg ms s = setup_zones cfg ms [0 ..< ZONES] s"

text \<open>What one call of \<^verbatim>\<open>loop()\<close> reads from outside.\<close>

record LoopIn =
  serial_in :: "string option"
  now_ms :: u32
  zone_env :: "nat \<Rightarrow> Env"

definition loop :: "Config \<Rightarrow> LoopIn \<Rightarrow> System \<Rightarrow> System \<times> msg list" where
  "loop cfg inp s =
     loop_zones cfg (now_ms inp) (zone_env inp) [0 ..< ZONES] (handleSerial (serial_in inp) s)"

text \<open>The sketch from power-on: \<^verbatim>\<open>setup()\<close> once, then \<^verbatim>\<open>loop()\<close> for each input.\<close>

fun run :: "Config \<Rightarrow> LoopIn list \<Rightarrow> System \<Rightarrow> System" where
  "run cfg [] s = s"
| "run cfg (inp # inps) s = run cfg inps (fst (loop cfg inp s))"

definition power_on :: "Config \<Rightarrow> (nat \<Rightarrow> u32) \<Rightarrow> LoopIn list \<Rightarrow> System" where
  "power_on cfg ms inps = run cfg inps (setup_main cfg ms boot)"

text \<open>The same for one zone alone: a sequence of passes of the loop body over it.\<close>

fun zone_run ::
  "Config \<Rightarrow> nat \<Rightarrow> c_int \<Rightarrow> c_int \<Rightarrow> (u32 \<times> Env) list \<Rightarrow> ZoneState \<Rightarrow> ZoneState" where
  "zone_run cfg i dry wet [] z = z"
| "zone_run cfg i dry wet ((now, e) # ts) z =
     zone_run cfg i dry wet ts (fst (zone_tick cfg now e i dry wet z))"

section \<open>Notions used in the statements\<close>

text \<open>The exchange in the body of the inner \<^verbatim>\<open>for\<close> of \<^verbatim>\<open>sortArray\<close>.\<close>

definition swap_step :: "u16 list \<Rightarrow> nat \<Rightarrow> nat \<Rightarrow> u16 list" where
  "swap_step arr i j = (if arr ! j < arr ! i then arr[i := arr ! j, j := arr ! i] else arr)"

text \<open>
  The invariant of the outer \<^verbatim>\<open>for\<close>: the first \<open>i\<close> places are sorted and below
  everything after them.
\<close>

definition sorted_upto :: "u16 list \<Rightarrow> nat \<Rightarrow> bool" where
  "sorted_upto arr i \<longleftrightarrow>
     sorted (take i arr) \<and> (\<forall>x \<in> set (take i arr). \<forall>y \<in> set (drop i arr). x \<le> y)"

text \<open>
  The arithmetic of \<open>map\<close> is exact on these arguments: neither \<open>wet - dry\<close> nor
  \<open>(adc - dry) * 100\<close> leaves the range of a \<^verbatim>\<open>long\<close>.
\<close>

definition map_exact :: "u16 \<Rightarrow> c_int \<Rightarrow> c_int \<Rightarrow> bool" where
  "map_exact adc dry wet \<longleftrightarrow>
     - (2 ^ 31) \<le> sint wet - sint dry \<and> sint wet - sint dry < 2 ^ 31
     \<and> - (2 ^ 31) < (uint adc - sint dry) * 100 \<and> (uint adc - sint dry) * 100 < 2 ^ 31"

text \<open>The state after the sampling part of a pass: time stamp, reading, fault counters.\<close>

definition sampled :: "Config \<Rightarrow> u32 \<Rightarrow> Env \<Rightarrow> ZoneState \<Rightarrow> ZoneState" where
  "sampled cfg now env z =
     updateFault cfg (readMedianAdc (analogRead env) (MEDIAN_SAMPLES cfg))
       (z\<lparr>lastSampleMs := now, lastAdc := readMedianAdc (analogRead env) (MEDIAN_SAMPLES cfg)\<rparr>)"

text \<open>The pass samples the zone: the interval test of \<^verbatim>\<open>loop()\<close> does not skip it.\<close>

definition due :: "Config \<Rightarrow> u32 \<Rightarrow> ZoneState \<Rightarrow> bool" where
  "due cfg now z \<longleftrightarrow> \<not> now - lastSampleMs z < ucast (SAMPLE_INTERVAL_MS cfg)"

text \<open>Pin and flag agree, and a faulted zone is off.\<close>

definition zone_safe :: "Config \<Rightarrow> ZoneState \<Rightarrow> bool" where
  "zone_safe cfg z \<longleftrightarrow>
     (\<not> watering z \<longrightarrow> relayPin z = relay_off_level cfg)
     \<and> (sensorFault z \<longrightarrow> \<not> watering z)"

text \<open>
  Inputs for the examples: every sample reads \<open>adc\<close>, and \<^verbatim>\<open>millis()\<close> is \<open>ms\<close> after
  the sampling; a pass of \<^verbatim>\<open>loop()\<close> with no serial input in which the nine samples of
  a zone take 90 ms.
\<close>

definition steady_env :: "u16 \<Rightarrow> u32 \<Rightarrow> Env" where
  "steady_env adc ms = \<lparr> analogRead = (\<lambda>k. adc), ms_relay = ms, ms_cooldown = ms, ms_window = ms \<rparr>"

definition quiet_pass :: "u32 \<Rightarrow> u16 \<Rightarrow> LoopIn" where
  "quiet_pass now adc = \<lparr> serial_in = None, now_ms = now, zone_env = (\<lambda>i. steady_env adc (now + 90)) \<rparr>"

text \<open>Scenario B of the specification: on for 15 s, moisture 50 percent.\<close>

definition scenario_B :: ZoneState where
  "scenario_B = zone0\<lparr>watering := True, wateringStartMs := 1000, lastSampleMs := 15000\<rparr>"

text \<open>Scenario C of the specification: on for 31 s, moisture 10 percent.\<close>

definition scenario_C :: ZoneState where
  "scenario_C = zone0\<lparr>watering := True, wateringStartMs := 1000, lastSampleMs := 31000\<rparr>"

text \<open>\<^verbatim>\<open>millis()\<close> is 200 in every \<open>setRelay\<close> of \<^verbatim>\<open>setup()\<close>, which waits 200 ms first.\<close>

definition setup_clock :: "nat \<Rightarrow> u32" where
  "setup_clock i = 200"

text \<open>
  From power-on with the settings of the sketch and a dry sensor: \<^verbatim>\<open>setup()\<close> at 200 ms,
  then passes of \<^verbatim>\<open>loop()\<close> at 121000 ms, 151000 ms and 152000 ms.
\<close>

definition overrun_passes :: "LoopIn list" where
  "overrun_passes = [quiet_pass 121000 3200, quiet_pass 151000 3200, quiet_pass 152000 3200]"

text \<open>Scenario D of the specification: a limit of three, two readings at the rail so far.\<close>

definition scenario_D_config :: Config where
  "scenario_D_config = default_config\<lparr>FAULT_COUNT_LIMIT := 3\<rparr>"

definition scenario_D :: ZoneState where
  "scenario_D = zone0\<lparr>watering := True, wateringStartMs := 1000, lastSampleMs := 3000,
     faultMaxCount := 2, lastAdc := 4095\<rparr>"

definition scenario_D_faulted :: ZoneState where
  "scenario_D_faulted = scenario_D\<lparr>watering := False, lastSampleMs := 4000, faultMaxCount := 3,
     sensorFault := True, lastWateringEndMs := 4090, relayPin := HIGH\<rparr>"

definition scenario_D_system :: System where
  "scenario_D_system = boot\<lparr>zone := [scenario_D_faulted, zone0, zone0, zone0]\<rparr>"

text \<open>A zone as \<^verbatim>\<open>setup()\<close> leaves it when \<^verbatim>\<open>millis()\<close> is 200 there.\<close>

definition after_setup :: ZoneState where
  "after_setup = setRelay default_config 200 False zone0"

text \<open>
  The sketch from power-on with the limit of Scenario D: zone 1 comes on once the
  cooldown that \<^verbatim>\<open>setup()\<close> started is over, then reads 4095 three times.
\<close>

definition scenario_D_passes :: "LoopIn list" where
  "scenario_D_passes = [quiet_pass 121000 3200, quiet_pass 122000 4095, quiet_pass 123000 4095]"

text \<open>
  From power-on, with a dry sensor and a clock that passes \<open>2 ^ 32\<close> ms: passes of
  \<^verbatim>\<open>loop()\<close> at 4294937000 ms, at 4294967206 ms and, after the wrap, at 1000 ms.
\<close>

definition wrap_passes :: "LoopIn list" where
  "wrap_passes = [quiet_pass 4294937000 3200, quiet_pass 4294967206 3200, quiet_pass 1000 3200]"

text \<open>A request of 4, for which five samples are taken: 7, 2, 5, 9 and 1.\<close>

definition five_samples :: "nat \<Rightarrow> u16" where
  "five_samples k =
     (if k = 0 then 7 else if k = 1 then 2 else if k = 2 then 5 else if k = 3 then 9 else 1)"

section \<open>Properties\<close>

lemma swap_step_length: "length (swap_step arr i j) = length arr"
  by (simp add: swap_step_def)

lemma swap_step_take: "i < j \<Longrightarrow> take i (swap_step arr i j) = take i arr"
  by (simp add: swap_step_def)

lemma swap_step_mset:
  "i < length arr \<Longrightarrow> j < length arr \<Longrightarrow> mset (swap_step arr i j) = mset arr"
  using mset_swap [of j arr i] by (simp add: swap_step_def)

lemma mset_drop_from_take:
  assumes "mset xs = mset ys" "take i xs = take i ys"
  shows "mset (drop i xs) = mset (drop i ys)"
proof -
  have "mset (take i xs) + mset (drop i xs) = mset (take i ys) + mset (drop i ys)"
    using assms(1) by (metis append_take_drop_id mset_append)
  then show ?thesis using assms(2) by simp
qed

lemma swap_step_least:
  assumes "i < j" "j < length arr" "\<forall>k. i < k \<and> k < j \<longrightarrow> arr ! i \<le> arr ! k"
    and "i < k" "k < j + 1"
  shows "swap_step arr i j ! i \<le> swap_step arr i j ! k"
proof (cases "k = j")
  case True
  then show ?thesis using assms(1,2) by (auto simp: swap_step_def)
next
  case False
  then have kj: "k < j" using assms(5) by simp
  then have "arr ! i \<le> arr ! k" using assms(3,4) by simp
  then show ?thesis using assms(1,2,4) kj by (auto simp: swap_step_def)
qed

lemma sortArray_inner_unfold:
  "sortArray_inner arr n i j =
     (if j < n then sortArray_inner (swap_step arr i j) n i (j + 1) else arr)"
  by (subst sortArray_inner.simps) (simp add: swap_step_def)

lemma sortArray_inner_length:
  "length (sortArray_inner arr n i j) = length arr"
proof (induction arr n i j rule: sortArray_inner.induct)
  case (1 arr n i j)
  show ?case
  proof (cases "j < n")
    case True
    have "length (sortArray_inner (swap_step arr i j) n i (j + 1)) = length (swap_step arr i j)"
      using "1.IH" [OF True] by (simp add: swap_step_def)
    then show ?thesis using True
      by (subst sortArray_inner_unfold) (simp add: swap_step_length)
  next
    case False
    then show ?thesis by (subst sortArray_inner_unfold) simp
  qed
qed

lemma sortArray_inner_take:
  "i < j \<Longrightarrow> take i (sortArray_inner arr n i j) = take i arr"
proof (induction arr n i j rule: sortArray_inner.induct)
  case (1 arr n i j)
  show ?case
  proof (cases "j < n")
    case True
    have "take i (sortArray_inner (swap_step arr i j) n i (j + 1)) = take i (swap_step arr i j)"
      using "1.IH" [OF True] "1.prems" by (simp add: swap_step_def)
    then show ?thesis using True "1.prems"
      by (subst sortArray_inner_unfold) (simp add: swap_step_take)
  next
    case False
    then show ?thesis by (subst sortArray_inner_unfold) simp
  qed
qed

lemma sortArray_inner_mset:
  "i < j \<Longrightarrow> n \<le> length arr \<Longrightarrow> mset (sortArray_inner arr n i j) = mset arr"
proof (induction arr n i j rule: sortArray_inner.induct)
  case (1 arr n i j)
  show ?case
  proof (cases "j < n")
    case True
    have "mset (sortArray_inner (swap_step arr i j) n i (j + 1)) = mset (swap_step arr i j)"
      using "1.IH" [OF True] "1.prems" by (simp add: swap_step_def)
    moreover have "mset (swap_step arr i j) = mset arr"
      using swap_step_mset [of i arr j] "1.prems" True by simp
    ultimately show ?thesis using True
      by (subst sortArray_inner_unfold) simp
  next
    case False
    then show ?thesis by (subst sortArray_inner_unfold) simp
  qed
qed

lemma sortArray_inner_least:
  "i < j \<Longrightarrow> n \<le> length arr \<Longrightarrow> \<forall>k. i < k \<and> k < j \<longrightarrow> arr ! i \<le> arr ! k \<Longrightarrow>
   i < k \<Longrightarrow> k < n \<Longrightarrow> sortArray_inner arr n i j ! i \<le> sortArray_inner arr n i j ! k"
proof (induction arr n i j rule: sortArray_inner.induct)
  case (1 arr n i j)
  show ?case
  proof (cases "j < n")
    case True
    have jl: "j < length arr" using True "1.prems" by simp
    have inv: "\<forall>k. i < k \<and> k < j + 1 \<longrightarrow> swap_step arr i j ! i \<le> swap_step arr i j ! k"
      using swap_step_least [OF "1.prems"(1) jl "1.prems"(3)] by blast
    have "sortArray_inner (swap_step arr i j) n i (j + 1) ! i
          \<le> sortArray_inner (swap_step arr i j) n i (j + 1) ! k"
      using "1.IH" [OF True] "1.prems" inv by (simp add: swap_step_def)
    then show ?thesis using True
      by (subst (1 2) sortArray_inner_unfold) simp
  next
    case False
    then have "j \<ge> n" by simp
    then have "arr ! i \<le> arr ! k" using "1.prems" by simp
    then show ?thesis using False by (subst (1 2) sortArray_inner_unfold) simp
  qed
qed

lemma sortArray_inner_sorted_upto:
  assumes "sorted_upto arr i" "i < length arr" "n = length arr"
  shows "sorted_upto (sortArray_inner arr n i (Suc i)) (Suc i)"
proof -
  define r where "r = sortArray_inner arr n i (Suc i)"
  have len: "length r = length arr" unfolding r_def by (rule sortArray_inner_length)
  have tk: "take i r = take i arr" unfolding r_def by (rule sortArray_inner_take) simp
  have ms: "mset r = mset arr"
    unfolding r_def using assms by (intro sortArray_inner_mset) simp_all
  have msd: "mset (drop i r) = mset (drop i arr)" by (rule mset_drop_from_take [OF ms tk])
  then have sd: "set (drop i r) = set (drop i arr)" by (rule mset_eq_setD)
  have least: "\<And>k. i < k \<Longrightarrow> k < n \<Longrightarrow> r ! i \<le> r ! k"
    unfolding r_def using assms by (intro sortArray_inner_least) auto
  have il: "i < length r" using len assms by simp
  have tk1: "take (Suc i) r = take i arr @ [r ! i]"
    using il tk by (simp add: take_Suc_conv_app_nth)
  have dr: "drop i r = r ! i # drop (Suc i) r"
    using il by (simp add: Cons_nth_drop_Suc)
  have ri: "r ! i \<in> set (drop i arr)" using dr sd by (metis list.set_intros(1))
  have below: "\<forall>x \<in> set (take i arr). x \<le> r ! i"
    using assms(1) ri by (simp add: sorted_upto_def)
  have rest: "\<forall>y \<in> set (drop (Suc i) r). r ! i \<le> y"
  proof
    fix y assume "y \<in> set (drop (Suc i) r)"
    then obtain m where m: "m < length (drop (Suc i) r)" "y = drop (Suc i) r ! m"
      by (metis in_set_conv_nth)
    then have "y = r ! (Suc i + m)" and "Suc i + m < n"
      using len assms(3) by simp_all
    then show "r ! i \<le> y" using least [of "Suc i + m"] by simp
  qed
  have sub: "set (drop (Suc i) r) \<subseteq> set (drop i arr)"
    using dr sd by (metis set_subset_Cons)
  have s1: "sorted (take (Suc i) r)"
    unfolding tk1 using assms(1) below by (simp add: sorted_append sorted_upto_def)
  have s2: "\<forall>x \<in> set (take (Suc i) r). \<forall>y \<in> set (drop (Suc i) r). x \<le> y"
    unfolding tk1 using assms(1) rest sub by (auto simp: sorted_upto_def)
  show ?thesis using s1 s2 unfolding r_def by (simp add: sorted_upto_def)
qed

lemma sortArray_outer_mset:
  "n = length arr \<Longrightarrow> mset (sortArray_outer arr n i) = mset arr"
proof (induction arr n i rule: sortArray_outer.induct)
  case (1 arr n i)
  show ?case
  proof (cases "i < n")
    case True
    have "mset (sortArray_inner arr n i (i + 1)) = mset arr"
      using "1.prems" by (intro sortArray_inner_mset) simp_all
    moreover have "mset (sortArray_outer (sortArray_inner arr n i (i + 1)) n (i + 1))
          = mset (sortArray_inner arr n i (i + 1))"
      using "1.IH" [OF True] "1.prems" by (simp add: sortArray_inner_length)
    ultimately show ?thesis using True by (subst sortArray_outer.simps) simp
  next
    case False
    then show ?thesis by (subst sortArray_outer.simps) simp
  qed
qed

lemma sortArray_outer_sorted:
  "n = length arr \<Longrightarrow> i \<le> n \<Longrightarrow> sorted_upto arr i \<Longrightarrow> sorted (sortArray_outer arr n i)"
proof (induction arr n i rule: sortArray_outer.induct)
  case (1 arr n i)
  show ?case
  proof (cases "i < n")
    case True
    have "sorted_upto (sortArray_inner arr n i (i + 1)) (i + 1)"
      using sortArray_inner_sorted_upto [of arr i n] "1.prems" True by simp
    then have "sorted (sortArray_outer (sortArray_inner arr n i (i + 1)) n (i + 1))"
      using "1.IH" [OF True] "1.prems" True by (simp add: sortArray_inner_length)
    then show ?thesis using True by (subst sortArray_outer.simps) simp
  next
    case False
    then have "i = n" using "1.prems" by simp
    then have "sorted arr" using "1.prems" by (simp add: sorted_upto_def)
    then show ?thesis using False by (subst sortArray_outer.simps) simp
  qed
qed

lemma sortArray_sort: "sortArray arr (length arr) = sort arr"
proof -
  have "sorted_upto arr 0" by (simp add: sorted_upto_def)
  then have "sorted (sortArray arr (length arr))"
    unfolding sortArray_def by (intro sortArray_outer_sorted) simp_all
  moreover have "mset (sortArray arr (length arr)) = mset arr"
    unfolding sortArray_def by (rule sortArray_outer_mset) simp
  ultimately show ?thesis by (metis properties_for_sort)
qed

lemma even_word_unat: "(w :: u8) mod 2 = 0 \<longleftrightarrow> even (unat w)"
  by (simp add: word_unat_eq_iff unat_mod even_iff_mod_2_eq_zero)

lemma sample_count_odd:
  "odd (unat (sample_count s)) \<and> 3 \<le> unat (sample_count s) \<and> unat (sample_count s) \<le> 15"
proof -
  define s1 where "s1 = (if s < 3 then 3 else s)"
  define s2 where "s2 = (if s1 mod 2 = 0 then s1 + 1 else s1)"
  have sc: "sample_count s = (if s2 > 15 then 15 else s2)"
    by (simp add: sample_count_def s1_def s2_def Let_def)
  have g1: "3 \<le> unat s1" by (simp add: s1_def word_less_nat_alt)
  have lt: "unat s1 < 256" using unsigned_less [of s1, where 'a = nat] by simp
  have g2: "odd (unat s2) \<and> 3 \<le> unat s2"
  proof (cases "s1 mod 2 = 0")
    case True
    then have ev: "even (unat s1)" by (simp add: even_word_unat)
    then have "unat s1 \<noteq> 255" by auto
    then have "unat s1 + 1 < 256" using lt by simp
    then have "unat (s1 + 1) = unat s1 + 1" by (simp add: unat_word_ariths)
    then show ?thesis using True ev g1 by (simp add: s2_def)
  next
    case False
    then have "odd (unat s1)" by (simp add: even_word_unat)
    then show ?thesis using False g1 by (simp add: s2_def)
  qed
  show ?thesis using g2 by (simp add: sc word_less_nat_alt)
qed

lemma two31: "(2 :: int) ^ 31 = 2147483648"
  by simp

lemma to_long_id: "- (2 ^ 31) \<le> k \<Longrightarrow> k < 2 ^ 31 \<Longrightarrow> to_long k = k"
  by (simp add: to_long_def signed_take_bit_int_eq_self)

lemma sdiv_pos_pos: "0 \<le> k \<Longrightarrow> 0 < l \<Longrightarrow> (k :: int) sdiv l = k div l"
  by (cases "k = 0") (simp_all add: signed_divide_int_def)

lemma sdiv_neg_neg: "k \<le> 0 \<Longrightarrow> l < 0 \<Longrightarrow> (k :: int) sdiv l = (- k) div (- l)"
  by (cases "k = 0") (simp_all add: signed_divide_int_def)

lemma sdiv_pos_neg: "0 \<le> k \<Longrightarrow> l < 0 \<Longrightarrow> (k :: int) sdiv l = - (k div (- l))"
  by (cases "k = 0") (simp_all add: signed_divide_int_def)

lemma sdiv_neg_pos: "k \<le> 0 \<Longrightarrow> 0 < l \<Longrightarrow> (k :: int) sdiv l = - ((- k) div l)"
  by (cases "k = 0") (simp_all add: signed_divide_int_def)

lemma div_le_self_int: "0 \<le> k \<Longrightarrow> 0 < l \<Longrightarrow> (k :: int) div l \<le> k"
  by (metis div_by_1 int_one_le_iff_zero_less zdiv_mono2 zero_less_one)

lemma sdiv_abs_le:
  assumes "l \<noteq> 0"
  shows "\<bar>(k :: int) sdiv l\<bar> \<le> \<bar>k\<bar>"
proof -
  have d: "0 \<le> \<bar>k\<bar> div \<bar>l\<bar>" by (simp add: div_int_pos_iff)
  have "\<bar>k sdiv l\<bar> = \<bar>sgn k\<bar> * \<bar>sgn l\<bar> * \<bar>\<bar>k\<bar> div \<bar>l\<bar>\<bar>"
    by (simp add: signed_divide_int_def abs_mult)
  also have "\<dots> \<le> \<bar>k\<bar> div \<bar>l\<bar>"
    using d by (cases "k = 0") (simp_all add: abs_sgn_eq)
  also have "\<dots> \<le> \<bar>k\<bar>"
    using assms by (intro div_le_self_int) simp_all
  finally show ?thesis .
qed

lemma arduino_map_exact:
  assumes "map_exact adc dry wet" "dry \<noteq> wet"
  shows "arduino_map (uint adc) (sint dry) (sint wet) 0 100
         = ((uint adc - sint dry) * 100) sdiv (sint wet - sint dry)"
proof -
  define run where "run = sint wet - sint dry"
  define delta where "delta = uint adc - sint dry"
  have r1: "- (2 ^ 31) \<le> run" "run < 2 ^ 31"
    and p1: "- (2 ^ 31) < delta * 100" "delta * 100 < 2 ^ 31"
    using assms(1) by (simp_all add: map_exact_def run_def delta_def)
  have run0: "run \<noteq> 0"
    using assms(2) by (auto simp: run_def dest: signed_word_eqI)
  define m where "m = delta * 100"
  have m1: "- 2147483648 < m" "m < 2147483648" using p1 by (simp_all add: m_def)
  have d1: "- (2 ^ 31) \<le> delta" "delta < 2 ^ 31" using p1 by simp_all
  define q where "q = (delta * 100) sdiv run"
  have "\<bar>q\<bar> \<le> \<bar>m\<bar>" unfolding q_def m_def by (rule sdiv_abs_le [OF run0])
  then have "- 2147483648 \<le> q" "q < 2147483648" using m1 by linarith+
  then have q1: "- (2 ^ 31) \<le> q" "q < 2 ^ 31" by simp_all
  have "arduino_map (uint adc) (sint dry) (sint wet) 0 100
        = (let run' = to_long run
           in if run' = 0 then - 1
              else to_long (to_long (to_long (to_long delta * to_long 100) sdiv run') + 0))"
    by (simp add: arduino_map_def run_def delta_def Let_def)
  also have "\<dots> = q"
    using r1 p1 d1 q1 run0 by (simp add: to_long_id q_def Let_def)
  finally show ?thesis by (simp add: q_def delta_def run_def)
qed

lemma adcToPercent_le_100: "adcToPercent adc dry wet \<le> 100"
proof (cases "dry = wet")
  case True
  then show ?thesis by (simp add: adcToPercent_def)
next
  case False
  define pct where "pct = arduino_map (uint adc) (sint dry) (sint wet) 0 100"
  define pct2 where "pct2 = (if (if pct < 0 then 0 else pct) > 100 then 100 else (if pct < 0 then 0 else pct))"
  have r: "0 \<le> pct2" "pct2 \<le> 100" by (simp_all add: pct2_def)
  have "adcToPercent adc dry wet = (word_of_int pct2 :: u8)"
    using False by (simp add: adcToPercent_def pct_def pct2_def Let_def)
  moreover have "uint (word_of_int pct2 :: u8) = pct2"
    using r by (simp add: uint_word_of_int)
  ultimately show ?thesis using r by (simp add: word_le_def)
qed

lemma adcToPercent_exact:
  assumes "map_exact adc dry wet" "dry \<noteq> wet"
  shows "adcToPercent adc dry wet =
     (let pct = ((uint adc - sint dry) * 100) sdiv (sint wet - sint dry)
      in if pct < 0 then 0 else if pct > 100 then 100 else word_of_int pct)"
  using assms by (auto simp: adcToPercent_def arduino_map_exact Let_def)

lemma sdiv_nonpos:
  assumes "(d \<le> 0 \<and> 0 < l) \<or> (0 \<le> d \<and> l < 0)"
  shows "(d * 100) sdiv (l :: int) \<le> 0"
proof -
  from assms consider "d \<le> 0" "0 < l" | "0 \<le> d" "l < 0" by blast
  then show ?thesis
  proof cases
    case 1
    then have "0 \<le> (- (d * 100)) div l" by (simp add: div_int_pos_iff)
    moreover have "(d * 100) sdiv l = - ((- (d * 100)) div l)"
      using 1 by (intro sdiv_neg_pos) (simp_all add: mult_le_0_iff)
    ultimately show ?thesis by simp
  next
    case 2
    then have "0 \<le> (d * 100) div (- l)" by (simp add: div_int_pos_iff)
    moreover have "(d * 100) sdiv l = - ((d * 100) div (- l))"
      using 2 by (intro sdiv_pos_neg) simp_all
    ultimately show ?thesis by simp
  qed
qed

lemma div_ge_100: "0 < l \<Longrightarrow> l \<le> d \<Longrightarrow> 100 \<le> (d * 100) div (l :: int)"
proof -
  assume a: "0 < l" "l \<le> d"
  then have "l * 100 \<le> d * 100" by simp
  then have "(l * 100) div l \<le> (d * 100) div l" using a(1) by (intro zdiv_mono1) simp_all
  then show ?thesis using a(1) by simp
qed

lemma sdiv_ge_100:
  assumes "(0 < l \<and> l \<le> d) \<or> (d \<le> l \<and> l < 0)"
  shows "100 \<le> (d * 100) sdiv (l :: int)"
proof -
  from assms consider "0 < l" "l \<le> d" | "d \<le> l" "l < 0" by blast
  then show ?thesis
  proof cases
    case 1
    then have "(d * 100) sdiv l = (d * 100) div l" by (intro sdiv_pos_pos) simp_all
    then show ?thesis using div_ge_100 [OF 1] by simp
  next
    case 2
    then have "(d * 100) sdiv l = (- (d * 100)) div (- l)"
      by (intro sdiv_neg_neg) (simp_all add: mult_le_0_iff)
    moreover have "100 \<le> ((- d) * 100) div (- l)" using 2 by (intro div_ge_100) simp_all
    ultimately show ?thesis by simp
  qed
qed

lemma sdiv_self_100: "l \<noteq> 0 \<Longrightarrow> (l * 100) sdiv (l :: int) = 100"
  using sdiv_ge_100 [of l l] sdiv_abs_le [of l "l * 100"]
  by (cases "0 < l") (simp_all add: sdiv_pos_pos sdiv_neg_neg)

lemma adcToPercent_0:
  assumes "map_exact adc dry wet" "dry \<noteq> wet"
    and "((uint adc - sint dry) * 100) sdiv (sint wet - sint dry) \<le> 0"
  shows "adcToPercent adc dry wet = 0"
  using assms(3) by (auto simp: adcToPercent_exact [OF assms(1,2)] Let_def)

lemma adcToPercent_100:
  assumes "map_exact adc dry wet" "dry \<noteq> wet"
    and "100 \<le> ((uint adc - sint dry) * 100) sdiv (sint wet - sint dry)"
  shows "adcToPercent adc dry wet = 100"
  using assms(3) by (auto simp: adcToPercent_exact [OF assms(1,2)] Let_def)

text \<open>
  C7 (as amended). The result of \<open>adcToPercent\<close> is at most 100 for every input, and it
  is 0 when \<open>dry = wet\<close>. When \<open>dry \<noteq> wet\<close> and the 32-bit arithmetic of \<open>map\<close> does
  not overflow (\<open>map_exact\<close>, which holds for every calibration value of magnitude up
  to 21000000): a reading equal to \<open>dry\<close> gives 0, one equal to \<open>wet\<close> gives 100, a
  reading beyond \<open>dry\<close> gives 0 and one beyond \<open>wet\<close> gives 100, in both orders of
  \<open>dry\<close> and \<open>wet\<close>.
\<close>

theorem adcToPercent_boundaries:
  "adcToPercent adc dry wet \<le> 100
   \<and> (dry = wet \<longrightarrow> adcToPercent adc dry wet = 0)
   \<and> (dry \<noteq> wet \<and> map_exact adc dry wet \<longrightarrow>
        (uint adc = sint dry \<longrightarrow> adcToPercent adc dry wet = 0)
      \<and> (uint adc = sint wet \<longrightarrow> adcToPercent adc dry wet = 100)
      \<and> (sint wet < sint dry \<longrightarrow>
            (sint dry \<le> uint adc \<longrightarrow> adcToPercent adc dry wet = 0)
          \<and> (uint adc \<le> sint wet \<longrightarrow> adcToPercent adc dry wet = 100))
      \<and> (sint dry < sint wet \<longrightarrow>
            (uint adc \<le> sint dry \<longrightarrow> adcToPercent adc dry wet = 0)
          \<and> (sint wet \<le> uint adc \<longrightarrow> adcToPercent adc dry wet = 100)))"
proof (intro conjI impI)
  show "adcToPercent adc dry wet \<le> 100" by (rule adcToPercent_le_100)
next
  assume "dry = wet"
  then show "adcToPercent adc dry wet = 0" by (simp add: adcToPercent_def)
next
  assume h: "dry \<noteq> wet \<and> map_exact adc dry wet" and e: "uint adc = sint dry"
  show "adcToPercent adc dry wet = 0"
    using h e by (intro adcToPercent_0) simp_all
next
  assume h: "dry \<noteq> wet \<and> map_exact adc dry wet" and e: "uint adc = sint wet"
  have ne: "sint wet - sint dry \<noteq> 0" using h by (auto dest: signed_word_eqI)
  have "((uint adc - sint dry) * 100) sdiv (sint wet - sint dry) = 100"
    unfolding e by (rule sdiv_self_100 [OF ne])
  then show "adcToPercent adc dry wet = 100"
    using h by (intro adcToPercent_100) simp_all
next
  assume h: "dry \<noteq> wet \<and> map_exact adc dry wet" and o: "sint wet < sint dry"
    and e: "sint dry \<le> uint adc"
  show "adcToPercent adc dry wet = 0"
    using h o e by (intro adcToPercent_0 sdiv_nonpos) simp_all
next
  assume h: "dry \<noteq> wet \<and> map_exact adc dry wet" and o: "sint wet < sint dry"
    and e: "uint adc \<le> sint wet"
  show "adcToPercent adc dry wet = 100"
    using h o e by (intro adcToPercent_100 sdiv_ge_100) simp_all
next
  assume h: "dry \<noteq> wet \<and> map_exact adc dry wet" and o: "sint dry < sint wet"
    and e: "uint adc \<le> sint dry"
  show "adcToPercent adc dry wet = 0"
    using h o e by (intro adcToPercent_0 sdiv_nonpos) simp_all
next
  assume h: "dry \<noteq> wet \<and> map_exact adc dry wet" and o: "sint dry < sint wet"
    and e: "sint wet \<le> uint adc"
  show "adcToPercent adc dry wet = 100"
    using h o e by (intro adcToPercent_100 sdiv_ge_100) simp_all
qed

lemma map_exact_bounded:
  assumes "\<bar>sint dry\<bar> \<le> 21000000" "\<bar>sint wet\<bar> \<le> 21000000"
  shows "map_exact adc dry wet"
proof -
  have "0 \<le> uint adc" "uint adc < 65536" using uint_bounded [of adc] by simp_all
  moreover have "- 21000000 \<le> sint dry" "sint dry \<le> 21000000"
    "- 21000000 \<le> sint wet" "sint wet \<le> 21000000"
    using assms by linarith+
  ultimately have d: "- 21065535 \<le> uint adc - sint dry" "uint adc - sint dry \<le> 21065535"
    and r: "- 42000000 \<le> sint wet - sint dry" "sint wet - sint dry \<le> 42000000"
    by linarith+
  have "(- 21065535) * 100 \<le> (uint adc - sint dry) * 100"
    using d(1) by (intro mult_right_mono) simp_all
  moreover have "(uint adc - sint dry) * 100 \<le> 21065535 * 100"
    using d(2) by (intro mult_right_mono) simp_all
  ultimately have "- 2147483648 < (uint adc - sint dry) * 100"
    "(uint adc - sint dry) * 100 < 2147483648" by linarith+
  moreover have "- 2147483648 \<le> sint wet - sint dry" "sint wet - sint dry < 2147483648"
    using r by linarith+
  ultimately show ?thesis unfolding map_exact_def two31 by blast
qed

theorem adcToPercent_boundaries_witness:
  "(3200 :: c_int) \<noteq> 1400 \<and> map_exact 1400 3200 1400 \<and> uint (1400 :: u16) = sint (1400 :: c_int)
   \<and> adcToPercent 1400 3200 1400 = 100"
  using adcToPercent_boundaries [of 1400 3200 1400] by (simp add: map_exact_def)

text \<open>
  With \<open>dry = 30000000\<close> (which \<^verbatim>\<open>CAL Z 1 DRY 30000000\<close> sets) and \<open>wet = 1\<close>, the
  product \<open>(1 - 30000000) * 100\<close> does not fit a \<^verbatim>\<open>long\<close>: the reading equal to
  \<open>wet\<close> gives 0, not 100.
\<close>

theorem adcToPercent_overflow_counterexample:
  "(30000000 :: c_int) \<noteq> 1 \<and> uint (1 :: u16) = sint (1 :: c_int)
   \<and> adcToPercent 1 30000000 1 = 0 \<and> adcToPercent 1 30000000 1 \<noteq> 100"
  by (simp add: adcToPercent_def arduino_map_def to_long_def signed_divide_int_def)

lemma setRelay_fields [simp]:
  "watering (setRelay cfg ms on z) = on"
  "sensorFault (setRelay cfg ms on z) = sensorFault z"
  "lastMoistPercent (setRelay cfg ms on z) = lastMoistPercent z"
  "lastAdc (setRelay cfg ms on z) = lastAdc z"
  "lastSampleMs (setRelay cfg ms on z) = lastSampleMs z"
  "faultMinCount (setRelay cfg ms on z) = faultMinCount z"
  "faultMaxCount (setRelay cfg ms on z) = faultMaxCount z"
  "relayPin (setRelay cfg ms False z) = relay_off_level cfg"
  "lastWateringEndMs (setRelay cfg ms False z) = ms"
  "wateringStartMs (setRelay cfg ms False z) = wateringStartMs z"
  "wateringStartMs (setRelay cfg ms True z) = ms"
  "lastWateringEndMs (setRelay cfg ms True z) = lastWateringEndMs z"
  by (simp_all add: setRelay_def relay_off_level_def Let_def)

lemma updateFault_fields [simp]:
  "watering (updateFault cfg adc z) = watering z"
  "lastMoistPercent (updateFault cfg adc z) = lastMoistPercent z"
  "lastAdc (updateFault cfg adc z) = lastAdc z"
  "lastSampleMs (updateFault cfg adc z) = lastSampleMs z"
  "wateringStartMs (updateFault cfg adc z) = wateringStartMs z"
  "lastWateringEndMs (updateFault cfg adc z) = lastWateringEndMs z"
  "relayPin (updateFault cfg adc z) = relayPin z"
  "faultMinCount (updateFault cfg adc z) = (if adc \<le> ADC_NEAR_MIN cfg then faultMinCount z + 1 else 0)"
  "faultMaxCount (updateFault cfg adc z) = (if adc \<ge> ADC_NEAR_MAX cfg then faultMaxCount z + 1 else 0)"
  by (simp_all add: updateFault_def Let_def)

lemma updateFault_latch: "sensorFault z \<Longrightarrow> sensorFault (updateFault cfg adc z)"
  by (simp add: updateFault_def Let_def)

lemma updateFault_limit:
  "FAULT_COUNT_LIMIT cfg \<le> faultMinCount (updateFault cfg adc z)
   \<or> FAULT_COUNT_LIMIT cfg \<le> faultMaxCount (updateFault cfg adc z)
   \<Longrightarrow> sensorFault (updateFault cfg adc z)"
  by (auto simp: updateFault_def Let_def split: if_splits)

lemma zone_tick_not_due: "\<not> due cfg now z \<Longrightarrow> zone_tick cfg now env i dry wet z = (z, [])"
  by (simp add: zone_tick_def due_def)

lemma zone_tick_fault:
  "due cfg now z \<Longrightarrow> sensorFault (sampled cfg now env z) \<Longrightarrow>
   zone_tick cfg now env i dry wet z =
     (if watering z
      then (setRelay cfg (ms_relay env) False (sampled cfg now env z), [SensorFaultStop (i + 1)])
      else (sampled cfg now env z, []))"
  by (simp add: zone_tick_def due_def sampled_def Let_def)

lemma zone_tick_ok:
  "due cfg now z \<Longrightarrow> \<not> sensorFault (sampled cfg now env z) \<Longrightarrow>
   zone_tick cfg now env i dry wet z =
     (let moistPct = adcToPercent (readMedianAdc (analogRead env) (MEDIAN_SAMPLES cfg)) dry wet;
          z4 = (sampled cfg now env z)\<lparr>lastMoistPercent := moistPct\<rparr>
      in if watering z \<and> now - wateringStartMs z \<ge> MAX_ON_TIME_MS cfg
         then (setRelay cfg (ms_relay env) False z4, [MaxOnTimeStop (i + 1)])
         else if \<not> watering z
         then (if moistPct < ON_THRESHOLD cfg ! i
                  \<and> cooldownPassed cfg (ms_cooldown env) z
                  \<and> wateringAllowedNow cfg (ms_window env)
               then (setRelay cfg (ms_relay env) True z4, [WaterOn (i + 1) moistPct])
               else (z4, []))
         else (if now - wateringStartMs z \<ge> MIN_ON_TIME_MS cfg \<and> moistPct > OFF_THRESHOLD cfg ! i
               then (setRelay cfg (ms_relay env) False z4, [WaterOff (i + 1) moistPct])
               else (z4, [])))"
  by (simp add: zone_tick_def due_def sampled_def Let_def cooldownPassed_def)

lemma sampled_fields [simp]:
  "watering (sampled cfg now env z) = watering z"
  "lastMoistPercent (sampled cfg now env z) = lastMoistPercent z"
  "wateringStartMs (sampled cfg now env z) = wateringStartMs z"
  "lastWateringEndMs (sampled cfg now env z) = lastWateringEndMs z"
  "relayPin (sampled cfg now env z) = relayPin z"
  "lastSampleMs (sampled cfg now env z) = now"
  "lastAdc (sampled cfg now env z) = readMedianAdc (analogRead env) (MEDIAN_SAMPLES cfg)"
  by (simp_all add: sampled_def)

lemma sampled_latch: "sensorFault z \<Longrightarrow> sensorFault (sampled cfg now env z)"
  by (simp add: sampled_def updateFault_latch)

lemma zone_tick_sensorFault:
  "sensorFault (fst (zone_tick cfg now env i dry wet z)) =
     (if due cfg now z then sensorFault (sampled cfg now env z) else sensorFault z)"
proof (cases "due cfg now z")
  case False
  then show ?thesis by (simp add: zone_tick_not_due)
next
  case d: True
  show ?thesis
  proof (cases "sensorFault (sampled cfg now env z)")
    case True
    then show ?thesis using d by (simp add: zone_tick_fault)
  next
    case False
    then show ?thesis using d by (simp add: zone_tick_ok Let_def)
  qed
qed

lemma zone_tick_latch:
  "sensorFault z \<Longrightarrow> sensorFault (fst (zone_tick cfg now env i dry wet z))"
  by (simp add: zone_tick_sensorFault sampled_latch)

lemma zone_tick_faulted_moist:
  "sensorFault z \<Longrightarrow>
   lastMoistPercent (fst (zone_tick cfg now env i dry wet z)) = lastMoistPercent z"
  by (cases "due cfg now z") (simp_all add: zone_tick_not_due zone_tick_fault sampled_latch)

lemma handleSerial_zone: "zone (fst (handleSerial inp s)) = zone s"
  by (simp add: handleSerial_def Let_def split: option.splits)

lemma loop_zones_invariant:
  assumes step: "\<And>e j dry wet z. P z \<Longrightarrow> P (fst (zone_tick cfg now e j dry wet z))"
  shows "i < length (zone s) \<Longrightarrow> P (zone s ! i) \<Longrightarrow>
         i < length (zone (fst (loop_zones cfg now envs js (s, out))))
         \<and> P (zone (fst (loop_zones cfg now envs js (s, out))) ! i)"
proof (induction js arbitrary: s out)
  case Nil
  then show ?case by simp
next
  case (Cons j js)
  obtain z' m where t: "zone_tick cfg now (envs j) j (DRY_ADC s ! j) (WET_ADC s ! j) (zone s ! j) = (z', m)"
    by (cases "zone_tick cfg now (envs j) j (DRY_ADC s ! j) (WET_ADC s ! j) (zone s ! j)")
  define s1 where "s1 = s\<lparr>zone := (zone s)[j := z']\<rparr>"
  have len: "i < length (zone s1)" using Cons.prems by (simp add: s1_def)
  have "P (zone s1 ! i)"
  proof (cases "i = j")
    case True
    have "P (fst (zone_tick cfg now (envs j) j (DRY_ADC s ! j) (WET_ADC s ! j) (zone s ! j)))"
      using Cons.prems True by (intro step) simp
    then show ?thesis using True Cons.prems t by (simp add: s1_def)
  next
    case False
    then show ?thesis using Cons.prems by (simp add: s1_def)
  qed
  then have "i < length (zone (fst (loop_zones cfg now envs js (s1, out @ m))))
         \<and> P (zone (fst (loop_zones cfg now envs js (s1, out @ m))) ! i)"
    using Cons.IH len by blast
  then show ?case using t by (simp add: s1_def)
qed

lemma loop_invariant:
  assumes step: "\<And>now e j dry wet z. P z \<Longrightarrow> P (fst (zone_tick cfg now e j dry wet z))"
    and "i < length (zone s)" "P (zone s ! i)"
  shows "i < length (zone (fst (loop cfg inp s))) \<and> P (zone (fst (loop cfg inp s)) ! i)"
proof -
  obtain s1 out where h: "handleSerial (serial_in inp) s = (s1, out)"
    by (cases "handleSerial (serial_in inp) s")
  then have "zone s1 = zone s" using handleSerial_zone [of "serial_in inp" s] by simp
  then have "i < length (zone s1)" "P (zone s1 ! i)" using assms(2,3) by simp_all
  then show ?thesis
    unfolding loop_def h by (intro loop_zones_invariant step)
qed

lemma run_invariant:
  assumes step: "\<And>now e j dry wet z. P z \<Longrightarrow> P (fst (zone_tick cfg now e j dry wet z))"
  shows "i < length (zone s) \<Longrightarrow> P (zone s ! i) \<Longrightarrow>
         i < length (zone (run cfg inps s)) \<and> P (zone (run cfg inps s) ! i)"
proof (induction inps arbitrary: s)
  case Nil
  then show ?case by simp
next
  case (Cons inp inps)
  have "i < length (zone (fst (loop cfg inp s))) \<and> P (zone (fst (loop cfg inp s)) ! i)"
    using Cons.prems by (intro loop_invariant step)
  then show ?case using Cons.IH by simp
qed

lemma setup_zones_off:
  "i < length (zone s) \<Longrightarrow> i \<in> set js \<or> Q (zone s ! i) \<Longrightarrow>
   (\<And>ms z. Q (setRelay cfg ms False z)) \<Longrightarrow> (\<And>ms z. Q z \<Longrightarrow> Q (setRelay cfg ms False z)) \<Longrightarrow>
   i < length (zone (setup_zones cfg ms js s)) \<and> Q (zone (setup_zones cfg ms js s) ! i)"
proof (induction js arbitrary: s)
  case Nil
  then show ?case by simp
next
  case (Cons j js)
  define s1 where "s1 = s\<lparr>zone := (zone s)[j := setRelay cfg (ms j) False (zone s ! j)]\<rparr>"
  have len: "i < length (zone s1)" using Cons.prems(1) by (simp add: s1_def)
  have "i \<in> set js \<or> Q (zone s1 ! i)"
  proof (cases "i = j")
    case True
    then show ?thesis using Cons.prems(1,3) by (simp add: s1_def)
  next
    case False
    then show ?thesis using Cons.prems(1,2) by (auto simp: s1_def)
  qed
  then have "i < length (zone (setup_zones cfg ms js s1)) \<and> Q (zone (setup_zones cfg ms js s1) ! i)"
    using len Cons.prems(3,4) by (intro Cons.IH) blast+
  then show ?case by (simp add: s1_def)
qed

lemma zone_tick_safe:
  assumes "zone_safe cfg z"
  shows "zone_safe cfg (fst (zone_tick cfg now e i dry wet z))"
proof (cases "due cfg now z")
  case False
  then show ?thesis using assms by (simp add: zone_tick_not_due)
next
  case d: True
  show ?thesis
  proof (cases "sensorFault (sampled cfg now e z)")
    case True
    then show ?thesis using d assms by (simp add: zone_tick_fault zone_safe_def)
  next
    case False
    then show ?thesis using d assms by (simp add: zone_tick_ok zone_safe_def Let_def)
  qed
qed

lemma power_on_safe:
  assumes "i < ZONES"
  shows "i < length (zone (power_on cfg ms inps)) \<and> zone_safe cfg (zone (power_on cfg ms inps) ! i)"
proof -
  have a: "i < length (zone boot)" using assms by (simp add: boot_def ZONES_def)
  have b: "i \<in> set [0 ..< ZONES]" using assms by simp
  have "i < length (zone (setup_main cfg ms boot)) \<and> zone_safe cfg (zone (setup_main cfg ms boot) ! i)"
    unfolding setup_main_def using a b
    by (intro setup_zones_off [where Q = "zone_safe cfg"]) (simp_all add: zone_safe_def)
  then show ?thesis
    unfolding power_on_def using zone_tick_safe by (intro run_invariant) blast+
qed

lemma readMedianAdc_const: "readMedianAdc (\<lambda>k. c) samples = c"
proof -
  define n where "n = unat (sample_count samples)"
  define vals where "vals = map (\<lambda>k :: nat. c) [0 ..< n]"
  have n3: "3 \<le> n" using sample_count_odd [of samples] by (simp add: n_def)
  have len: "length vals = n" by (simp add: vals_def)
  have "readMedianAdc (\<lambda>k. c) samples = sortArray vals (length vals) ! (n div 2)"
    by (simp add: readMedianAdc_def n_def vals_def Let_def)
  also have "\<dots> = sort vals ! (n div 2)" by (simp add: sortArray_sort)
  also have "\<dots> \<in> set (sort vals)" using n3 len by (intro nth_mem) simp
  finally have "readMedianAdc (\<lambda>k. c) samples \<in> set vals" by simp
  then show ?thesis by (auto simp: vals_def)
qed

lemma steady_env_simps [simp]:
  "analogRead (steady_env adc ms) = (\<lambda>k. adc)"
  "ms_relay (steady_env adc ms) = ms"
  "ms_cooldown (steady_env adc ms) = ms"
  "ms_window (steady_env adc ms) = ms"
  by (simp_all add: steady_env_def)

lemmas eval_defs = zone_tick_def readMedianAdc_const updateFault_def setRelay_def adcToPercent_def
  arduino_map_def to_long_def signed_divide_int_def cooldownPassed_def wateringAllowedNow_def
  default_config_def Let_def zone0_def relay_off_level_def

text \<open>
  C1. In any pass over a zone, with any reading and calibration: if the recovery message
  \<open>WaterOff\<close> is printed, or the zone goes from on to off while neither the sensor
  fault nor the maximum on-time applies, then the zone was on and
  \<open>now - wateringStartMs\<close> has reached \<open>MIN_ON_TIME_MS\<close>. So the recovery rule never
  switches a zone off before the minimum on-time.
\<close>

theorem min_on_time_before_recovery_off:
  assumes "zone_tick cfg now e i dry wet z = (z', out)"
    and "WaterOff k p \<in> set out
         \<or> (watering z \<and> \<not> watering z' \<and> \<not> sensorFault z'
             \<and> now - wateringStartMs z < MAX_ON_TIME_MS cfg)"
  shows "watering z \<and> MIN_ON_TIME_MS cfg \<le> now - wateringStartMs z"
proof (cases "due cfg now z")
  case False
  then show ?thesis using assms by (auto simp: zone_tick_not_due)
next
  case d: True
  show ?thesis
  proof (cases "sensorFault (sampled cfg now e z)")
    case True
    then show ?thesis using d assms by (auto simp: zone_tick_fault split: if_splits)
  next
    case False
    then show ?thesis using d assms by (auto simp: zone_tick_ok Let_def split: if_splits)
  qed
qed

theorem min_on_time_before_recovery_off_witness:
  "zone_tick default_config 16000 (steady_env 2300 16090) 0 3200 1400 scenario_B
     = (scenario_B\<lparr>watering := False, lastSampleMs := 16000, lastAdc := 2300,
          lastMoistPercent := 50, lastWateringEndMs := 16090, relayPin := HIGH\<rparr>, [WaterOff 1 50])
   \<and> WaterOff 1 50 \<in> set [WaterOff 1 50]
   \<and> watering scenario_B
   \<and> MIN_ON_TIME_MS default_config \<le> 16000 - wateringStartMs scenario_B"
proof -
  have t: "zone_tick default_config 16000 (steady_env 2300 16090) 0 3200 1400 scenario_B
     = (scenario_B\<lparr>watering := False, lastSampleMs := 16000, lastAdc := 2300,
          lastMoistPercent := 50, lastWateringEndMs := 16090, relayPin := HIGH\<rparr>, [WaterOff 1 50])"
    by (simp add: eval_defs scenario_B_def)
  show ?thesis
    using t min_on_time_before_recovery_off [OF t, of 1 50] by simp
qed

text \<open>One zone of the system follows \<open>zone_run\<close> while no serial command arrives.\<close>

lemma loop_zones_frame:
  "DRY_ADC (fst (loop_zones cfg now envs js (s, out))) = DRY_ADC s
   \<and> WET_ADC (fst (loop_zones cfg now envs js (s, out))) = WET_ADC s
   \<and> length (zone (fst (loop_zones cfg now envs js (s, out)))) = length (zone s)"
proof (induction js arbitrary: s out)
  case Nil
  then show ?case by simp
next
  case (Cons j js)
  obtain z' m where t: "zone_tick cfg now (envs j) j (DRY_ADC s ! j) (WET_ADC s ! j) (zone s ! j) = (z', m)"
    by (cases "zone_tick cfg now (envs j) j (DRY_ADC s ! j) (WET_ADC s ! j) (zone s ! j)")
  show ?case using Cons.IH [of "s\<lparr>zone := (zone s)[j := z']\<rparr>" "out @ m"] t by simp
qed

lemma loop_zones_nth:
  "distinct js \<Longrightarrow> i < length (zone s) \<Longrightarrow>
   zone (fst (loop_zones cfg now envs js (s, out))) ! i =
     (if i \<in> set js
      then fst (zone_tick cfg now (envs i) i (DRY_ADC s ! i) (WET_ADC s ! i) (zone s ! i))
      else zone s ! i)"
proof (induction js arbitrary: s out)
  case Nil
  then show ?case by simp
next
  case (Cons j js)
  obtain z' m where t: "zone_tick cfg now (envs j) j (DRY_ADC s ! j) (WET_ADC s ! j) (zone s ! j) = (z', m)"
    by (cases "zone_tick cfg now (envs j) j (DRY_ADC s ! j) (WET_ADC s ! j) (zone s ! j)")
  define s1 where "s1 = s\<lparr>zone := (zone s)[j := z']\<rparr>"
  have d: "distinct js" and nj: "j \<notin> set js" using Cons.prems by simp_all
  have len: "i < length (zone s1)" using Cons.prems by (simp add: s1_def)
  have IH: "zone (fst (loop_zones cfg now envs js (s1, out @ m))) ! i =
     (if i \<in> set js
      then fst (zone_tick cfg now (envs i) i (DRY_ADC s1 ! i) (WET_ADC s1 ! i) (zone s1 ! i))
      else zone s1 ! i)"
    using Cons.IH [OF d len] by simp
  have unf: "loop_zones cfg now envs (j # js) (s, out) = loop_zones cfg now envs js (s1, out @ m)"
    using t by (simp add: s1_def)
  show ?case
  proof (cases "i = j")
    case True
    then show ?thesis using IH nj t Cons.prems unfolding unf by (simp add: s1_def)
  next
    case False
    then show ?thesis using IH unfolding unf by (simp add: s1_def)
  qed
qed

lemma handleSerial_None: "handleSerial None s = (s, [])"
  by (simp add: handleSerial_def)

lemma loop_quiet:
  assumes "serial_in inp = None" "i < ZONES" "ZONES \<le> length (zone s)"
  shows "zone (fst (loop cfg inp s)) ! i
           = fst (zone_tick cfg (now_ms inp) (zone_env inp i) i (DRY_ADC s ! i) (WET_ADC s ! i)
                    (zone s ! i))
         \<and> DRY_ADC (fst (loop cfg inp s)) = DRY_ADC s
         \<and> WET_ADC (fst (loop cfg inp s)) = WET_ADC s
         \<and> length (zone (fst (loop cfg inp s))) = length (zone s)"
proof -
  have "i < length (zone s)" using assms by simp
  then show ?thesis
    unfolding loop_def assms(1) handleSerial_None
    using assms(2) loop_zones_frame [of cfg "now_ms inp" "zone_env inp" "[0 ..< ZONES]" s "[]"]
    by (simp add: loop_zones_nth)
qed

lemma run_quiet:
  "\<forall>inp \<in> set inps. serial_in inp = None \<Longrightarrow> i < ZONES \<Longrightarrow> ZONES \<le> length (zone s) \<Longrightarrow>
   zone (run cfg inps s) ! i
     = zone_run cfg i (DRY_ADC s ! i) (WET_ADC s ! i)
         (map (\<lambda>inp. (now_ms inp, zone_env inp i)) inps) (zone s ! i)"
proof (induction inps arbitrary: s)
  case Nil
  then show ?case by simp
next
  case (Cons inp inps)
  have q: "serial_in inp = None" using Cons.prems(1) by simp
  note l = loop_quiet [OF q Cons.prems(2,3), of cfg]
  have "zone (run cfg inps (fst (loop cfg inp s))) ! i
     = zone_run cfg i (DRY_ADC (fst (loop cfg inp s)) ! i) (WET_ADC (fst (loop cfg inp s)) ! i)
         (map (\<lambda>inp. (now_ms inp, zone_env inp i)) inps) (zone (fst (loop cfg inp s)) ! i)"
    using Cons.prems l by (intro Cons.IH) simp_all
  then show ?case using l by simp
qed

lemma setup_main_boot:
  assumes "i < ZONES"
  shows "zone (setup_main cfg ms boot) ! i = setRelay cfg (ms i) False zone0"
    and "length (zone (setup_main cfg ms boot)) = ZONES"
    and "DRY_ADC (setup_main cfg ms boot) ! i = 3200"
    and "WET_ADC (setup_main cfg ms boot) ! i = 1400"
proof -
  have "i = 0 \<or> i = 1 \<or> i = 2 \<or> i = 3" using assms by (auto simp: ZONES_def)
  then show "zone (setup_main cfg ms boot) ! i = setRelay cfg (ms i) False zone0"
    and "DRY_ADC (setup_main cfg ms boot) ! i = 3200"
    and "WET_ADC (setup_main cfg ms boot) ! i = 1400"
    by (auto simp: setup_main_def ZONES_def boot_def upt_conv_Cons numeral_2_eq_2 numeral_3_eq_3)
  show "length (zone (setup_main cfg ms boot)) = ZONES"
    by (simp add: setup_main_def ZONES_def boot_def upt_conv_Cons)
qed

lemma power_on_quiet:
  assumes "\<forall>inp \<in> set inps. serial_in inp = None" "i < ZONES"
  shows "zone (power_on cfg ms inps) ! i
     = zone_run cfg i 3200 1400 (map (\<lambda>inp. (now_ms inp, zone_env inp i)) inps)
         (setRelay cfg (ms i) False zone0)"
  unfolding power_on_def
  using run_quiet [OF assms(1,2), of "setup_main cfg ms boot" cfg] setup_main_boot [OF assms(2), of cfg ms]
  by simp

text \<open>
  C2 (as amended). In a pass over a zone, whatever the reading and the calibration:
  a watering zone that is sampled when \<open>now - wateringStartMs\<close> has reached
  \<open>MAX_ON_TIME_MS\<close> is off after the pass, the relay driven to its off level and the
  end time recorded; the recovery message is never printed in such a pass, and unless
  the sensor fault fired first the pass is exactly the cutoff: the message
  \<open>MaxOnTimeStop\<close> and \<open>setRelay\<close> off on the sampled state, with no further decision.
  And the cutoff never fires early: a pass that prints \<open>MaxOnTimeStop\<close> sampled a
  zone that was watering with \<open>now - wateringStartMs\<close> at or above \<open>MAX_ON_TIME_MS\<close>.
\<close>

theorem max_on_time_cutoff:
  assumes "zone_tick cfg now e i dry wet z = (z', out)"
  shows "(watering z \<and> due cfg now z \<and> MAX_ON_TIME_MS cfg \<le> now - wateringStartMs z \<longrightarrow>
        \<not> watering z' \<and> relayPin z' = relay_off_level cfg \<and> lastWateringEndMs z' = ms_relay e
        \<and> (\<forall>k p. WaterOff k p \<notin> set out)
        \<and> (\<not> sensorFault z' \<longrightarrow>
             out = [MaxOnTimeStop (i + 1)]
             \<and> z' = setRelay cfg (ms_relay e) False
                    ((sampled cfg now e z)\<lparr>lastMoistPercent :=
                       adcToPercent (readMedianAdc (analogRead e) (MEDIAN_SAMPLES cfg)) dry wet\<rparr>)))
     \<and> (MaxOnTimeStop k \<in> set out \<longrightarrow>
          watering z \<and> due cfg now z \<and> MAX_ON_TIME_MS cfg \<le> now - wateringStartMs z
          \<and> \<not> sensorFault z')"
proof (cases "due cfg now z")
  case False
  then show ?thesis using assms by (auto simp: zone_tick_not_due)
next
  case d: True
  show ?thesis
  proof (cases "sensorFault (sampled cfg now e z)")
    case True
    then show ?thesis using d assms by (auto simp: zone_tick_fault split: if_splits)
  next
    case False
    then show ?thesis using d assms by (auto simp: zone_tick_ok Let_def split: if_splits)
  qed
qed

theorem max_on_time_cutoff_witness:
  "zone_tick default_config 32000 (steady_env 3020 32090) 0 3200 1400 scenario_C
       = (scenario_C\<lparr>watering := False, lastSampleMs := 32000, lastAdc := 3020,
            lastMoistPercent := 10, lastWateringEndMs := 32090, relayPin := HIGH\<rparr>,
          [MaxOnTimeStop 1])
   \<and> watering scenario_C \<and> due default_config 32000 scenario_C
   \<and> MAX_ON_TIME_MS default_config \<le> 32000 - wateringStartMs scenario_C
   \<and> \<not> sensorFault (scenario_C\<lparr>watering := False, lastSampleMs := 32000, lastAdc := 3020,
            lastMoistPercent := 10, lastWateringEndMs := 32090, relayPin := HIGH\<rparr>)
   \<and> MaxOnTimeStop 1 \<in> set [MaxOnTimeStop 1]
   \<and> lastWateringEndMs (scenario_C\<lparr>watering := False, lastSampleMs := 32000, lastAdc := 3020,
            lastMoistPercent := 10, lastWateringEndMs := 32090, relayPin := HIGH\<rparr>)
       = ms_relay (steady_env 3020 32090)"
proof -
  have t: "zone_tick default_config 32000 (steady_env 3020 32090) 0 3200 1400 scenario_C
       = (scenario_C\<lparr>watering := False, lastSampleMs := 32000, lastAdc := 3020,
            lastMoistPercent := 10, lastWateringEndMs := 32090, relayPin := HIGH\<rparr>,
          [MaxOnTimeStop 1])"
    by (simp add: eval_defs scenario_C_def)
  have m: "MaxOnTimeStop 1 \<in> set [MaxOnTimeStop 1]" by simp
  have a: "watering scenario_C \<and> due default_config 32000 scenario_C
      \<and> MAX_ON_TIME_MS default_config \<le> 32000 - wateringStartMs scenario_C
      \<and> \<not> sensorFault (scenario_C\<lparr>watering := False, lastSampleMs := 32000, lastAdc := 3020,
            lastMoistPercent := 10, lastWateringEndMs := 32090, relayPin := HIGH\<rparr>)"
    using max_on_time_cutoff [OF t, of 1] m by blast
  have b: "lastWateringEndMs (scenario_C\<lparr>watering := False, lastSampleMs := 32000, lastAdc := 3020,
            lastMoistPercent := 10, lastWateringEndMs := 32090, relayPin := HIGH\<rparr>)
       = ms_relay (steady_env 3020 32090)"
    using max_on_time_cutoff [OF t, of 1] a by blast
  show ?thesis using t m a b by blast
qed

lemmas quiet_eval = power_on_quiet quiet_pass_def ZONES_def setup_clock_def

text \<open>
  Zone 1 comes on at 121090 ms. The pass at 151000 ms finds 29910 ms of on-time and
  leaves it on; the next pass, at 152000 ms, switches it off at 152090 ms, after
  31000 ms of watering: more than \<open>MAX_ON_TIME_MS\<close>.
\<close>

theorem max_on_time_overrun_counterexample:
  "watering (zone (power_on default_config setup_clock (take 2 overrun_passes)) ! 0)
   \<and> \<not> watering (zone (power_on default_config setup_clock overrun_passes) ! 0)
   \<and> lastWateringEndMs (zone (power_on default_config setup_clock overrun_passes) ! 0)
      - wateringStartMs (zone (power_on default_config setup_clock overrun_passes) ! 0) = 31000
   \<and> MAX_ON_TIME_MS default_config = 30000"
proof -
  have a: "zone (power_on default_config setup_clock (take 2 overrun_passes)) ! 0
      = zone_run default_config 0 3200 1400
          [(121000, steady_env 3200 121090), (151000, steady_env 3200 151090)]
          (setRelay default_config 200 False zone0)"
    by (simp add: quiet_eval overrun_passes_def)
  have b: "zone (power_on default_config setup_clock overrun_passes) ! 0
      = zone_run default_config 0 3200 1400
          [(121000, steady_env 3200 121090), (151000, steady_env 3200 151090),
           (152000, steady_env 3200 152090)]
          (setRelay default_config 200 False zone0)"
    by (simp add: quiet_eval overrun_passes_def)
  show ?thesis unfolding a b by (simp add: eval_defs)
qed

lemma scenario_D_tick:
  "zone_tick scenario_D_config 4000 (steady_env 4095 4090) 0 3200 1400 scenario_D
     = (scenario_D_faulted, [SensorFaultStop 1])"
  by (simp add: eval_defs scenario_D_def scenario_D_config_def scenario_D_faulted_def)

lemma scenario_D_due: "due scenario_D_config 4000 scenario_D"
  by (simp add: due_def scenario_D_def scenario_D_config_def default_config_def zone0_def)

text \<open>
  C3. When a zone is sampled and the pass leaves \<open>faultMinCount\<close> or \<open>faultMaxCount\<close> at
  or above \<open>FAULT_COUNT_LIMIT\<close>, \<open>sensorFault\<close> is set after the pass; and in any system
  state that holds this zone, the flag is still set after every sequence of calls of
  \<^verbatim>\<open>loop()\<close>, whatever the readings, the clock and the serial commands.
\<close>

theorem fault_latch:
  assumes "due cfg now z"
    and "z1 = fst (zone_tick cfg now e i dry wet z)"
    and "FAULT_COUNT_LIMIT cfg \<le> faultMinCount z1 \<or> FAULT_COUNT_LIMIT cfg \<le> faultMaxCount z1"
    and "j < length (zone s)" and "zone s ! j = z1"
  shows "sensorFault z1 \<and> sensorFault (zone (run cfg inps s) ! j)"
proof -
  have cnt: "faultMinCount z1 = faultMinCount (sampled cfg now e z)
             \<and> faultMaxCount z1 = faultMaxCount (sampled cfg now e z)"
  proof (cases "sensorFault (sampled cfg now e z)")
    case True
    then show ?thesis using assms(1,2) by (simp add: zone_tick_fault)
  next
    case False
    then show ?thesis using assms(1,2) by (simp add: zone_tick_ok Let_def)
  qed
  have "sensorFault (sampled cfg now e z)"
    using assms(3) cnt unfolding sampled_def by (intro updateFault_limit) simp
  then have f: "sensorFault z1"
    using assms(1,2) by (simp add: zone_tick_sensorFault)
  have "j < length (zone (run cfg inps s)) \<and> sensorFault (zone (run cfg inps s) ! j)"
    using assms(4,5) f zone_tick_latch by (intro run_invariant) simp_all
  then show ?thesis using f by simp
qed

theorem fault_latch_witness:
  "due scenario_D_config 4000 scenario_D
   \<and> scenario_D_faulted
        = fst (zone_tick scenario_D_config 4000 (steady_env 4095 4090) 0 3200 1400 scenario_D)
   \<and> FAULT_COUNT_LIMIT scenario_D_config \<le> faultMaxCount scenario_D_faulted
   \<and> 0 < length (zone scenario_D_system)
   \<and> zone scenario_D_system ! 0 = scenario_D_faulted
   \<and> sensorFault scenario_D_faulted
   \<and> sensorFault (zone (run scenario_D_config [quiet_pass 5000 2300, quiet_pass 6000 2300]
                           scenario_D_system) ! 0)"
proof -
  have a: "due scenario_D_config 4000 scenario_D" by (rule scenario_D_due)
  have b: "scenario_D_faulted
        = fst (zone_tick scenario_D_config 4000 (steady_env 4095 4090) 0 3200 1400 scenario_D)"
    by (simp add: scenario_D_tick)
  have c: "FAULT_COUNT_LIMIT scenario_D_config \<le> faultMaxCount scenario_D_faulted"
    by (simp add: scenario_D_config_def scenario_D_faulted_def)
  have c': "FAULT_COUNT_LIMIT scenario_D_config \<le> faultMinCount scenario_D_faulted
            \<or> FAULT_COUNT_LIMIT scenario_D_config \<le> faultMaxCount scenario_D_faulted"
    using c by simp
  have d: "0 < length (zone scenario_D_system)" by (simp add: scenario_D_system_def)
  have e: "zone scenario_D_system ! 0 = scenario_D_faulted" by (simp add: scenario_D_system_def)
  show ?thesis
    using a b c d e fault_latch [OF a b c' d e, of "[quiet_pass 5000 2300, quiet_pass 6000 2300]"]
    by blast
qed

lemma handleSerial_STATUS:
  "handleSerial (Some ''STATUS'') s =
     (s, [StatusReport
            (map (\<lambda>i. (lastAdc (zone s ! i), lastMoistPercent (zone s ! i),
                        watering (zone s ! i), sensorFault (zone s ! i)))
                 [0 ..< ZONES])])"
  by (simp add: handleSerial_def trim_def toUpperCase_def isspace_def toupper_def)

text \<open>
  C10. When a zone is sampled and is faulted after the pass, the pass has stored the
  reading in \<open>lastAdc\<close> and updated both fault counters, and \<open>lastMoistPercent\<close> is the
  value from before the pass; in any system state that holds this zone,
  \<open>lastMoistPercent\<close> is still that value after every sequence of calls of \<^verbatim>\<open>loop()\<close>,
  and it is the moisture that \<^verbatim>\<open>STATUS\<close> then prints for the zone.
\<close>

theorem faulted_zone_keeps_moisture:
  assumes "due cfg now z"
    and "zone_tick cfg now e i dry wet z = (z1, out)"
    and "sensorFault z1"
    and "j < ZONES" and "j < length (zone s)" and "zone s ! j = z1"
  shows "lastAdc z1 = readMedianAdc (analogRead e) (MEDIAN_SAMPLES cfg)
     \<and> faultMinCount z1 = (if lastAdc z1 \<le> ADC_NEAR_MIN cfg then faultMinCount z + 1 else 0)
     \<and> faultMaxCount z1 = (if lastAdc z1 \<ge> ADC_NEAR_MAX cfg then faultMaxCount z + 1 else 0)
     \<and> lastMoistPercent z1 = lastMoistPercent z
     \<and> lastMoistPercent (zone (run cfg inps s) ! j) = lastMoistPercent z
     \<and> (\<exists>rows. handleSerial (Some ''STATUS'') (run cfg inps s)
                   = (run cfg inps s, [StatusReport rows])
               \<and> fst (snd (rows ! j)) = lastMoistPercent z)"
proof -
  have f: "sensorFault (sampled cfg now e z)"
    using assms(1,2,3) zone_tick_sensorFault [of cfg now e i dry wet z] by simp
  have z1: "z1 = (if watering z then setRelay cfg (ms_relay e) False (sampled cfg now e z)
                  else sampled cfg now e z)"
    using assms(1,2) f by (simp add: zone_tick_fault split: if_splits)
  have p1: "lastAdc z1 = readMedianAdc (analogRead e) (MEDIAN_SAMPLES cfg)"
    by (simp add: z1)
  have p2: "faultMinCount z1 = (if lastAdc z1 \<le> ADC_NEAR_MIN cfg then faultMinCount z + 1 else 0)"
    unfolding p1 by (simp add: z1 sampled_def)
  have p3: "faultMaxCount z1 = (if lastAdc z1 \<ge> ADC_NEAR_MAX cfg then faultMaxCount z + 1 else 0)"
    unfolding p1 by (simp add: z1 sampled_def)
  have p4: "lastMoistPercent z1 = lastMoistPercent z" by (simp add: z1)
  define P where "P = (\<lambda>y :: ZoneState. sensorFault y \<and> lastMoistPercent y = lastMoistPercent z)"
  have step: "\<And>now e j dry wet y. P y \<Longrightarrow> P (fst (zone_tick cfg now e j dry wet y))"
    by (simp add: P_def zone_tick_latch zone_tick_faulted_moist)
  have "P (zone s ! j)" using assms(3,6) p4 by (simp add: P_def)
  then have "j < length (zone (run cfg inps s)) \<and> P (zone (run cfg inps s) ! j)"
    using assms(5) step by (intro run_invariant) blast+
  then have p5: "lastMoistPercent (zone (run cfg inps s) ! j) = lastMoistPercent z"
    by (simp add: P_def)
  define rows where "rows = map (\<lambda>i. (lastAdc (zone (run cfg inps s) ! i),
      lastMoistPercent (zone (run cfg inps s) ! i), watering (zone (run cfg inps s) ! i),
      sensorFault (zone (run cfg inps s) ! i))) [0 ..< ZONES]"
  have "handleSerial (Some ''STATUS'') (run cfg inps s) = (run cfg inps s, [StatusReport rows])"
    unfolding rows_def by (rule handleSerial_STATUS)
  moreover have "fst (snd (rows ! j)) = lastMoistPercent z"
    using assms(4) p5 by (simp add: rows_def)
  ultimately have p6: "\<exists>rows. handleSerial (Some ''STATUS'') (run cfg inps s)
                   = (run cfg inps s, [StatusReport rows])
               \<and> fst (snd (rows ! j)) = lastMoistPercent z"
    by blast
  show ?thesis using p1 p2 p3 p4 p5 p6 by blast
qed

theorem faulted_zone_keeps_moisture_witness:
  "due scenario_D_config 4000 scenario_D
   \<and> zone_tick scenario_D_config 4000 (steady_env 4095 4090) 0 3200 1400 scenario_D
        = (scenario_D_faulted, [SensorFaultStop 1])
   \<and> sensorFault scenario_D_faulted
   \<and> 0 < ZONES \<and> 0 < length (zone scenario_D_system)
   \<and> zone scenario_D_system ! 0 = scenario_D_faulted
   \<and> lastAdc scenario_D_faulted = 4095
   \<and> lastMoistPercent (zone (run scenario_D_config [quiet_pass 5000 2300, quiet_pass 6000 2300]
                           scenario_D_system) ! 0)
       = lastMoistPercent scenario_D"
proof -
  have a: "due scenario_D_config 4000 scenario_D" by (rule scenario_D_due)
  have b: "zone_tick scenario_D_config 4000 (steady_env 4095 4090) 0 3200 1400 scenario_D
        = (scenario_D_faulted, [SensorFaultStop 1])" by (rule scenario_D_tick)
  have c: "sensorFault scenario_D_faulted" by (simp add: scenario_D_faulted_def)
  have z: "(0 :: nat) < ZONES" by (simp add: ZONES_def)
  have d: "0 < length (zone scenario_D_system)" by (simp add: scenario_D_system_def)
  have e: "zone scenario_D_system ! 0 = scenario_D_faulted" by (simp add: scenario_D_system_def)
  have g: "lastAdc scenario_D_faulted = 4095"
    by (simp add: scenario_D_faulted_def scenario_D_def)
  show ?thesis
    using a b c z d e g
      faulted_zone_keeps_moisture [OF a b c z d e, of "[quiet_pass 5000 2300, quiet_pass 6000 2300]"]
    by blast
qed

text \<open>
  C4. In every state the sketch reaches from power-on (\<^verbatim>\<open>setup()\<close>, then any number of
  calls of \<^verbatim>\<open>loop()\<close> with any inputs), a zone whose \<open>sensorFault\<close> is set is not
  watering and its relay is at the off level. And a pass that samples a zone and leaves
  it faulted leaves it off: if the zone was on, \<open>setRelay\<close> drives the relay off,
  records \<open>lastWateringEndMs\<close> and the stop message is the only output; if it was
  off, nothing is printed or driven. In both cases the rest of the body is skipped:
  \<open>lastMoistPercent\<close> and \<open>wateringStartMs\<close> are as before the pass.
\<close>

theorem faulted_zone_is_off:
  "(i < ZONES \<and> sensorFault (zone (power_on cfg ms inps) ! i)
      \<longrightarrow> \<not> watering (zone (power_on cfg ms inps) ! i)
          \<and> relayPin (zone (power_on cfg ms inps) ! i) = relay_off_level cfg)
   \<and> (due cfg now z \<and> zone_tick cfg now e j dry wet z = (z', out) \<and> sensorFault z'
      \<longrightarrow> \<not> watering z'
          \<and> (out, relayPin z', lastWateringEndMs z')
              = (if watering z then ([SensorFaultStop (j + 1)], relay_off_level cfg, ms_relay e)
                 else ([], relayPin z, lastWateringEndMs z))
          \<and> lastMoistPercent z' = lastMoistPercent z
          \<and> wateringStartMs z' = wateringStartMs z)"
proof (intro conjI impI)
  assume h: "i < ZONES \<and> sensorFault (zone (power_on cfg ms inps) ! i)"
  then have "zone_safe cfg (zone (power_on cfg ms inps) ! i)"
    using power_on_safe [of i cfg ms inps] by simp
  then show "\<not> watering (zone (power_on cfg ms inps) ! i)"
    and "relayPin (zone (power_on cfg ms inps) ! i) = relay_off_level cfg"
    using h by (simp_all add: zone_safe_def)
next
  assume h: "due cfg now z \<and> zone_tick cfg now e j dry wet z = (z', out) \<and> sensorFault z'"
  then have f: "sensorFault (sampled cfg now e z)"
    using zone_tick_sensorFault [of cfg now e j dry wet z] by simp
  have t: "(z', out) = (if watering z
      then (setRelay cfg (ms_relay e) False (sampled cfg now e z), [SensorFaultStop (j + 1)])
      else (sampled cfg now e z, []))"
    using h f zone_tick_fault [of cfg now z e j dry wet] by (auto split: if_splits)
  show "\<not> watering z'" using t by (auto split: if_splits)
  show "(out, relayPin z', lastWateringEndMs z')
              = (if watering z then ([SensorFaultStop (j + 1)], relay_off_level cfg, ms_relay e)
                 else ([], relayPin z, lastWateringEndMs z))"
    using t by (auto split: if_splits)
  show "lastMoistPercent z' = lastMoistPercent z" using t by (auto split: if_splits)
  show "wateringStartMs z' = wateringStartMs z" using t by (auto split: if_splits)
qed

lemma scenario_D_power_on:
  "zone (power_on scenario_D_config setup_clock scenario_D_passes) ! 0
     = zone0\<lparr>watering := True, wateringStartMs := 121090, lastSampleMs := 123000,
         lastWateringEndMs := 200, faultMaxCount := 2, lastAdc := 4095\<rparr>"
proof -
  have a: "zone (power_on scenario_D_config setup_clock scenario_D_passes) ! 0
      = zone_run scenario_D_config 0 3200 1400
          [(121000, steady_env 3200 121090), (122000, steady_env 4095 122090),
           (123000, steady_env 4095 123090)]
          (setRelay scenario_D_config 200 False zone0)"
    by (simp add: quiet_eval scenario_D_passes_def)
  have t1: "zone_tick scenario_D_config 121000 (steady_env 3200 121090) 0 3200 1400
              (setRelay scenario_D_config 200 False zone0)
      = (zone0\<lparr>watering := True, wateringStartMs := 121090, lastSampleMs := 121000,
           lastWateringEndMs := 200, lastAdc := 3200\<rparr>, [WaterOn 1 0])"
    by (simp add: eval_defs scenario_D_config_def)
  have n: "\<not> (3 :: u16) \<le> 1" by (simp add: word_le_nat_alt)
  have t2: "zone_tick scenario_D_config 122000 (steady_env 4095 122090) 0 3200 1400
              (zone0\<lparr>watering := True, wateringStartMs := 121090, lastSampleMs := 121000,
                 lastWateringEndMs := 200, lastAdc := 3200\<rparr>)
      = (zone0\<lparr>watering := True, wateringStartMs := 121090, lastSampleMs := 122000,
           lastWateringEndMs := 200, faultMaxCount := 1, lastAdc := 4095\<rparr>, [])"
    by (simp add: eval_defs scenario_D_config_def n)
  have t3: "zone_tick scenario_D_config 123000 (steady_env 4095 123090) 0 3200 1400
              (zone0\<lparr>watering := True, wateringStartMs := 121090, lastSampleMs := 122000,
                 lastWateringEndMs := 200, faultMaxCount := 1, lastAdc := 4095\<rparr>)
      = (zone0\<lparr>watering := True, wateringStartMs := 121090, lastSampleMs := 123000,
           lastWateringEndMs := 200, faultMaxCount := 2, lastAdc := 4095\<rparr>, [])"
    by (simp add: eval_defs scenario_D_config_def)
  show ?thesis unfolding a by (simp add: t1 t2 t3)
qed

lemma scenario_D_power_on_fault:
  "zone (power_on scenario_D_config setup_clock (scenario_D_passes @ [quiet_pass 124000 4095])) ! 0
     = zone0\<lparr>wateringStartMs := 121090, lastSampleMs := 124000, lastWateringEndMs := 124090,
         faultMaxCount := 3, sensorFault := True, lastAdc := 4095, relayPin := HIGH\<rparr>"
proof -
  have q: "\<forall>inp \<in> set (scenario_D_passes @ [quiet_pass 124000 4095]). serial_in inp = None"
    by (simp add: scenario_D_passes_def quiet_pass_def)
  have z: "(0 :: nat) < ZONES" by (simp add: ZONES_def)
  have "zone (power_on scenario_D_config setup_clock (scenario_D_passes @ [quiet_pass 124000 4095])) ! 0
      = zone_run scenario_D_config 0 3200 1400
          [(121000, steady_env 3200 121090), (122000, steady_env 4095 122090),
           (123000, steady_env 4095 123090), (124000, steady_env 4095 124090)]
          (setRelay scenario_D_config 200 False zone0)"
    unfolding power_on_quiet [OF q z]
    by (simp add: scenario_D_passes_def quiet_pass_def setup_clock_def)
  also have "\<dots> = fst (zone_tick scenario_D_config 124000 (steady_env 4095 124090) 0 3200 1400
      (zone_run scenario_D_config 0 3200 1400
          [(121000, steady_env 3200 121090), (122000, steady_env 4095 122090),
           (123000, steady_env 4095 123090)]
          (setRelay scenario_D_config 200 False zone0)))"
    by simp
  also have "zone_run scenario_D_config 0 3200 1400
          [(121000, steady_env 3200 121090), (122000, steady_env 4095 122090),
           (123000, steady_env 4095 123090)]
          (setRelay scenario_D_config 200 False zone0)
     = zone (power_on scenario_D_config setup_clock scenario_D_passes) ! 0"
    by (simp add: quiet_eval scenario_D_passes_def)
  finally show ?thesis
    unfolding scenario_D_power_on by (simp add: eval_defs scenario_D_config_def)
qed

theorem faulted_zone_is_off_witness:
  "0 < ZONES
   \<and> sensorFault
        (zone (power_on scenario_D_config setup_clock (scenario_D_passes @ [quiet_pass 124000 4095])) ! 0)
   \<and> due scenario_D_config 4000 scenario_D
   \<and> zone_tick scenario_D_config 4000 (steady_env 4095 4090) 0 3200 1400 scenario_D
        = (scenario_D_faulted, [SensorFaultStop 1])
   \<and> sensorFault scenario_D_faulted
   \<and> \<not> watering
        (zone (power_on scenario_D_config setup_clock (scenario_D_passes @ [quiet_pass 124000 4095])) ! 0)
   \<and> \<not> watering scenario_D_faulted"
proof -
  have a: "(0 :: nat) < ZONES" by (simp add: ZONES_def)
  have b: "sensorFault
        (zone (power_on scenario_D_config setup_clock (scenario_D_passes @ [quiet_pass 124000 4095])) ! 0)"
    unfolding scenario_D_power_on_fault by simp
  have c: "due scenario_D_config 4000 scenario_D" by (rule scenario_D_due)
  have d: "zone_tick scenario_D_config 4000 (steady_env 4095 4090) 0 3200 1400 scenario_D
        = (scenario_D_faulted, [SensorFaultStop 1])" by (rule scenario_D_tick)
  have e: "sensorFault scenario_D_faulted" by (simp add: scenario_D_faulted_def)
  show ?thesis
    using a b c d e
      faulted_zone_is_off [of 0 scenario_D_config setup_clock
        "scenario_D_passes @ [quiet_pass 124000 4095]" 4000 scenario_D "steady_env 4095 4090" 0
        3200 1400 scenario_D_faulted "[SensorFaultStop 1]"]
    by blast
qed

text \<open>
  The gate of \<open>cooldownPassed\<close> away from the stamp 0: a zone that is off with a
  non-zero \<open>lastWateringEndMs\<close> does not come on in a pass in which less than
  \<open>COOLDOWN_MS\<close> has gone by since that time, whatever the reading.
\<close>

lemma cooldown_gate:
  assumes "zone_tick cfg now e i dry wet z = (z', out)"
    and "\<not> watering z" and "lastWateringEndMs z \<noteq> 0"
    and "ms_cooldown e - lastWateringEndMs z < COOLDOWN_MS cfg"
  shows "\<not> watering z' \<and> (\<forall>k p. WaterOn k p \<notin> set out)
     \<and> relayPin z' = relayPin z \<and> wateringStartMs z' = wateringStartMs z"
proof (cases "due cfg now z")
  case False
  then show ?thesis using assms by (auto simp: zone_tick_not_due)
next
  case d: True
  have nc: "\<not> cooldownPassed cfg (ms_cooldown e) z"
    using assms(3,4) by (simp add: cooldownPassed_def)
  show ?thesis
  proof (cases "sensorFault (sampled cfg now e z)")
    case True
    then show ?thesis using d assms(1,2) by (auto simp: zone_tick_fault)
  next
    case False
    then show ?thesis using d assms(1,2) nc by (auto simp: zone_tick_ok Let_def)
  qed
qed

text \<open>
  C5: what the sketch does. Zone 1 is on since 4294937090 ms; the pass at 4294967206 ms
  cuts it off after 30116 ms, and \<^verbatim>\<open>millis()\<close> has wrapped to 0 when \<open>setRelay\<close>
  records the end. The next pass, at 1000 ms, takes the 0 for never watered in
  \<open>cooldownPassed\<close> and switches the zone on 1090 ms after it went off, with
  \<open>COOLDOWN_MS\<close> at 120000.
\<close>

theorem cooldown_lost_at_clock_wrap:
  "watering (zone (power_on default_config setup_clock (take 1 wrap_passes)) ! 0)
   \<and> \<not> watering (zone (power_on default_config setup_clock (take 2 wrap_passes)) ! 0)
   \<and> lastWateringEndMs (zone (power_on default_config setup_clock (take 2 wrap_passes)) ! 0) = 0
   \<and> watering (zone (power_on default_config setup_clock wrap_passes) ! 0)
   \<and> wateringStartMs (zone (power_on default_config setup_clock wrap_passes) ! 0)
      - lastWateringEndMs (zone (power_on default_config setup_clock wrap_passes) ! 0) = 1090
   \<and> COOLDOWN_MS default_config = 120000"
proof -
  have t1: "zone_tick default_config 4294937000 (steady_env 3200 4294937090) 0 3200 1400 after_setup
      = (zone0\<lparr>watering := True, wateringStartMs := 4294937090, lastSampleMs := 4294937000,
           lastWateringEndMs := 200, lastAdc := 3200\<rparr>, [WaterOn 1 0])"
    by (simp add: eval_defs after_setup_def)
  have t2: "zone_tick default_config 4294967206 (steady_env 3200 0) 0 3200 1400
              (zone0\<lparr>watering := True, wateringStartMs := 4294937090, lastSampleMs := 4294937000,
                 lastWateringEndMs := 200, lastAdc := 3200\<rparr>)
      = (zone0\<lparr>wateringStartMs := 4294937090, lastSampleMs := 4294967206,
           lastAdc := 3200, relayPin := HIGH\<rparr>, [MaxOnTimeStop 1])"
    by (simp add: eval_defs)
  have t3: "zone_tick default_config 1000 (steady_env 3200 1090) 0 3200 1400
              (zone0\<lparr>wateringStartMs := 4294937090, lastSampleMs := 4294967206,
                 lastAdc := 3200, relayPin := HIGH\<rparr>)
      = (zone0\<lparr>watering := True, wateringStartMs := 1090, lastSampleMs := 1000,
           lastAdc := 3200\<rparr>, [WaterOn 1 0])"
    by (simp add: eval_defs)
  have a: "zone (power_on default_config setup_clock (take 1 wrap_passes)) ! 0
      = fst (zone_tick default_config 4294937000 (steady_env 3200 4294937090) 0 3200 1400 after_setup)"
    by (simp add: quiet_eval wrap_passes_def after_setup_def)
  have w0: "(4294967296 :: u32) = 0" by simp
  have b: "zone (power_on default_config setup_clock (take 2 wrap_passes)) ! 0
      = fst (zone_tick default_config 4294967206 (steady_env 3200 0) 0 3200 1400
          (fst (zone_tick default_config 4294937000 (steady_env 3200 4294937090) 0 3200 1400
             after_setup)))"
    by (simp add: quiet_eval wrap_passes_def after_setup_def w0)
  have c: "zone (power_on default_config setup_clock wrap_passes) ! 0
      = fst (zone_tick default_config 1000 (steady_env 3200 1090) 0 3200 1400
          (fst (zone_tick default_config 4294967206 (steady_env 3200 0) 0 3200 1400
            (fst (zone_tick default_config 4294937000 (steady_env 3200 4294937090) 0 3200 1400
               after_setup)))))"
    by (simp add: quiet_eval wrap_passes_def after_setup_def w0)
  show ?thesis unfolding a b c t1 fst_conv t2 t3 by (simp add: default_config_def zone0_def)
qed

text \<open>
  C6: what the sketch does. \<^verbatim>\<open>setup()\<close> switches every relay off through \<open>setRelay\<close>,
  which stores \<^verbatim>\<open>millis()\<close> (200 ms after the \<^verbatim>\<open>delay(200)\<close>) in
  \<open>lastWateringEndMs\<close>: no zone starts with the value 0 that \<open>cooldownPassed\<close> takes
  for never watered. In the first sample pass, at 1000 ms, the soil is dry (0 percent,
  below the threshold 35) and the time window permits, and zone 1 stays off.
\<close>

theorem setup_starts_cooldown:
  "lastWateringEndMs (zone (setup_main default_config setup_clock boot) ! 0) = 200
   \<and> wateringStartMs (zone (setup_main default_config setup_clock boot) ! 0) = 0
   \<and> adcToPercent 3200 3200 1400 < ON_THRESHOLD default_config ! 0
   \<and> wateringAllowedNow default_config 1090
   \<and> lastSampleMs (zone (power_on default_config setup_clock [quiet_pass 1000 3200]) ! 0) = 1000
   \<and> \<not> watering (zone (power_on default_config setup_clock [quiet_pass 1000 3200]) ! 0)"
proof -
  have z: "(0 :: nat) < ZONES" by (simp add: ZONES_def)
  have a: "zone (setup_main default_config setup_clock boot) ! 0 = after_setup"
    using setup_main_boot(1) [OF z, of default_config setup_clock]
    by (simp add: after_setup_def setup_clock_def)
  have b: "zone (power_on default_config setup_clock [quiet_pass 1000 3200]) ! 0
      = fst (zone_tick default_config 1000 (steady_env 3200 1090) 0 3200 1400 after_setup)"
    by (simp add: quiet_eval after_setup_def)
  have t: "zone_tick default_config 1000 (steady_env 3200 1090) 0 3200 1400 after_setup
     = (after_setup\<lparr>lastSampleMs := 1000, lastAdc := 3200\<rparr>, [])"
    by (simp add: eval_defs after_setup_def)
  have e: "adcToPercent 3200 3200 1400 < ON_THRESHOLD default_config ! 0"
    by (simp add: eval_defs)
  have w: "wateringAllowedNow default_config 1090"
    by (simp add: wateringAllowedNow_def default_config_def)
  show ?thesis unfolding a b t using e w by (simp add: after_setup_def setRelay_def zone0_def)
qed

lemma sorted_nth_filter_less:
  fixes xs :: "u16 list"
  assumes "sorted xs" "k < length xs"
  shows "length (filter (\<lambda>x. x < xs ! k) xs) \<le> k"
proof -
  have "filter (\<lambda>x. x < xs ! k) (drop k xs) = []"
  proof -
    have "\<forall>x \<in> set (drop k xs). \<not> x < xs ! k"
    proof
      fix x assume "x \<in> set (drop k xs)"
      then obtain m where m: "m < length (drop k xs)" "x = drop k xs ! m"
        by (metis in_set_conv_nth)
      then have "x = xs ! (k + m)" "k + m < length xs" by simp_all
      then have "xs ! k \<le> x" using assms(1) by (simp add: sorted_nth_mono)
      then show "\<not> x < xs ! k" by simp
    qed
    then show ?thesis by (simp add: filter_empty_conv)
  qed
  then have "filter (\<lambda>x. x < xs ! k) xs = filter (\<lambda>x. x < xs ! k) (take k xs)"
    by (metis append_Nil2 append_take_drop_id filter_append)
  moreover have "length (filter (\<lambda>x. x < xs ! k) (take k xs)) \<le> length (take k xs)"
    by (rule length_filter_le)
  ultimately show ?thesis by simp
qed

lemma sorted_nth_filter_greater:
  fixes xs :: "u16 list"
  assumes "sorted xs" "k < length xs"
  shows "length (filter (\<lambda>x. xs ! k < x) xs) \<le> length xs - Suc k"
proof -
  have "filter (\<lambda>x. xs ! k < x) (take (Suc k) xs) = []"
  proof -
    have "\<forall>x \<in> set (take (Suc k) xs). \<not> xs ! k < x"
    proof
      fix x assume "x \<in> set (take (Suc k) xs)"
      then obtain m where m: "m < length (take (Suc k) xs)" "x = take (Suc k) xs ! m"
        by (metis in_set_conv_nth)
      then have "x = xs ! m" "m \<le> k" by simp_all
      then have "x \<le> xs ! k" using assms by (simp add: sorted_nth_mono)
      then show "\<not> xs ! k < x" by simp
    qed
    then show ?thesis by (simp add: filter_empty_conv)
  qed
  then have "filter (\<lambda>x. xs ! k < x) xs = filter (\<lambda>x. xs ! k < x) (drop (Suc k) xs)"
    by (metis append_Nil append_take_drop_id filter_append)
  moreover have "length (filter (\<lambda>x. xs ! k < x) (drop (Suc k) xs)) \<le> length (drop (Suc k) xs)"
    by (rule length_filter_le)
  ultimately show ?thesis by simp
qed

lemma length_filter_mset: "mset xs = mset ys \<Longrightarrow> length (filter P xs) = length (filter P ys)"
  by (metis mset_filter size_mset)

lemma readMedianAdc_sort:
  "readMedianAdc rd samples
     = sort (readings rd samples) ! (length (readings rd samples) div 2)"
  using sortArray_sort [of "readings rd samples"]
  by (simp add: readMedianAdc_def readings_def Let_def)

lemma sample_count_clamp:
  "unat (sample_count samples)
     = min 15 (if even (max 3 (unat samples)) then max 3 (unat samples) + 1
               else max 3 (unat samples))"
proof -
  define s1 where "s1 = (if samples < 3 then 3 else samples)"
  define s2 where "s2 = (if s1 mod 2 = 0 then s1 + 1 else s1)"
  have sc: "sample_count samples = (if s2 > 15 then 15 else s2)"
    by (simp add: sample_count_def s1_def s2_def Let_def)
  have g1: "unat s1 = max 3 (unat samples)" by (auto simp: s1_def word_less_nat_alt)
  have lt: "unat s1 < 256" using unsigned_less [of s1, where 'a = nat] by simp
  have g2: "unat s2 = (if even (unat s1) then unat s1 + 1 else unat s1)"
  proof (cases "s1 mod 2 = 0")
    case True
    then have ev: "even (unat s1)" by (simp add: even_word_unat)
    then have "unat s1 \<noteq> 255" by auto
    then have "unat s1 + 1 < 256" using lt by simp
    then have "unat (s1 + 1) = unat s1 + 1" by (simp add: unat_word_ariths)
    then show ?thesis using True ev by (simp add: s2_def)
  next
    case False
    then have "odd (unat s1)" by (simp add: even_word_unat)
    then show ?thesis using False by (simp add: s2_def)
  qed
  have "unat (sample_count samples) = min 15 (unat s2)"
    by (auto simp: sc word_less_nat_alt)
  then show ?thesis by (simp add: g2 g1)
qed

text \<open>
  C8. The number of samples taken is the requested count clamped: raised to 3 if it is
  below, raised by one if it is then even, and cut to 15 if it is then above; so it is
  odd, at least 3 and at most 15, and an odd request from 3 to 15 is taken as it is. The
  value returned is the middle element of the sorted samples: the reference definition,
  sort and take index \<open>n div 2\<close>. It depends on the samples only as a multiset, so
  every reordering of them gives the same value; and it is a median in the counting
  sense, with at most \<open>n div 2\<close> samples below it and at most \<open>n div 2\<close> above.
\<close>

theorem readMedianAdc_median:
  "unat (sample_count samples)
     = min 15 (if even (max 3 (unat samples)) then max 3 (unat samples) + 1
               else max 3 (unat samples))
   \<and> odd (unat (sample_count samples))
   \<and> 3 \<le> unat (sample_count samples) \<and> unat (sample_count samples) \<le> 15
   \<and> length (readings rd samples) = unat (sample_count samples)
   \<and> readings rd samples = map rd [0 ..< unat (sample_count samples)]
   \<and> readMedianAdc rd samples
       = sort (readings rd samples) ! (length (readings rd samples) div 2)
   \<and> (\<forall>ys. mset ys = mset (readings rd samples)
          \<longrightarrow> sort ys ! (length ys div 2) = readMedianAdc rd samples)
   \<and> length (filter (\<lambda>x. x < readMedianAdc rd samples) (readings rd samples))
       \<le> length (readings rd samples) div 2
   \<and> length (filter (\<lambda>x. readMedianAdc rd samples < x) (readings rd samples))
       \<le> length (readings rd samples) div 2"
proof -
  define vals where "vals = readings rd samples"
  define n where "n = unat (sample_count samples)"
  have cl: "n = min 15 (if even (max 3 (unat samples)) then max 3 (unat samples) + 1
               else max 3 (unat samples))"
    unfolding n_def by (rule sample_count_clamp)
  have c: "odd n" "3 \<le> n" "n \<le> 15" using sample_count_odd [of samples] by (simp_all add: n_def)
  have len: "length vals = n" by (simp add: vals_def readings_def n_def)
  have rdg: "vals = map rd [0 ..< n]" by (simp add: vals_def readings_def n_def)
  have med: "readMedianAdc rd samples = sort vals ! (length vals div 2)"
    unfolding vals_def by (rule readMedianAdc_sort)
  have perm: "\<forall>ys. mset ys = mset vals \<longrightarrow> sort ys ! (length ys div 2) = readMedianAdc rd samples"
  proof (intro allI impI)
    fix ys :: "u16 list" assume a: "mset ys = mset vals"
    then have "sort ys = sort vals" by (metis properties_for_sort mset_sort sorted_sort)
    moreover have "length ys = length vals" using a by (metis size_mset)
    ultimately show "sort ys ! (length ys div 2) = readMedianAdc rd samples" by (simp add: med)
  qed
  have k: "n div 2 < length (sort vals)" using c len by simp
  have "length (filter (\<lambda>x. x < sort vals ! (n div 2)) (sort vals)) \<le> n div 2"
    using k by (intro sorted_nth_filter_less) simp_all
  then have lo: "length (filter (\<lambda>x. x < readMedianAdc rd samples) vals) \<le> length vals div 2"
    using length_filter_mset [of "sort vals" vals] by (simp add: med len)
  have "length (filter (\<lambda>x. sort vals ! (n div 2) < x) (sort vals)) \<le> length (sort vals) - Suc (n div 2)"
    using k by (intro sorted_nth_filter_greater) simp_all
  moreover have "n - Suc (n div 2) = n div 2" using c(1) by (auto elim: oddE)
  ultimately have hi: "length (filter (\<lambda>x. readMedianAdc rd samples < x) vals) \<le> length vals div 2"
    using length_filter_mset [of "sort vals" vals] by (simp add: med len)
  show ?thesis using cl c len rdg med perm lo hi unfolding vals_def n_def by blast
qed

theorem readMedianAdc_median_witness:
  "unat (sample_count 4) = 5
   \<and> readings five_samples 4 = [7, 2, 5, 9, 1]
   \<and> mset [9, 1, 5, 2, 7] = mset (readings five_samples 4)
   \<and> readMedianAdc five_samples 4 = 5"
proof -
  have n: "unat (sample_count 4) = 5"
    using readMedianAdc_median [of 4 five_samples] by simp
  have r: "readings five_samples 4 = [7, 2, 5, 9, 1]"
    by (simp add: readings_def n five_samples_def upt_conv_Cons)
  have m: "mset [9, 1, 5, 2, 7] = mset (readings five_samples 4)" unfolding r by simp
  have "sort [9, 1, 5, 2, 7 :: u16] ! (length [9, 1, 5, 2, 7 :: u16] div 2)
        = readMedianAdc five_samples 4"
    using readMedianAdc_median [of 4 five_samples] m by blast
  then have "readMedianAdc five_samples 4 = 5" by (simp add: word_le_nat_alt word_less_nat_alt)
  then show ?thesis using n r m by simp
qed

text \<open>
  C9: what the sketch does. After \<^verbatim>\<open>CAL Z 1\<close> there is no blank behind the zone number,
  \<open>sp1\<close> is \<open>-1\<close> and \<open>handleSerial\<close> returns with nothing printed and nothing changed.
  The malformed \<^verbatim>\<open>CAL Z 1 DRY\<close>, one word longer, does get its message.
\<close>

theorem cal_without_value_is_silent:
  "handleSerial (Some ''CAL Z 1'') s = (s, [])
   \<and> handleSerial (Some ''CAL Z 1 DRY'') s = (s, [InvalidValue])"
  by code_simp

lemma handleSerial_changes:
  assumes "handleSerial inp s = (s', out)" "s' \<noteq> s"
  shows "\<exists>n v. 1 \<le> n \<and> n \<le> int ZONES \<and> 0 < v
     \<and> ((out = [SetDry n v] \<and> s' = s\<lparr>DRY_ADC := (DRY_ADC s)[nat (n - 1) := word_of_int v]\<rparr>)
        \<or> (out = [SetWet n v] \<and> s' = s\<lparr>WET_ADC := (WET_ADC s)[nat (n - 1) := word_of_int v]\<rparr>))"
  using assms
  by (auto simp: handleSerial_def Let_def split: option.splits if_splits)

end
